theory Spec2Isabelle
  imports Main "HOL-Library.Word"
begin

section \<open>Data model of the socket event loop (packages/bun-usockets/src/loop.c)\<close>

text \<open>
  Pointers are addresses (\<open>nat\<close>), a null pointer is \<open>None\<close>. Every C struct is a
  record living in a store of the loop state, so that the intrusive lists of the source
  (\<open>next\<close>/\<open>prev\<close> fields) and their aliasing are kept as they are.
\<close>

type_synonym addr = nat

datatype poll_type =
    POLL_TYPE_SOCKET
  | POLL_TYPE_SOCKET_SHUT_DOWN
  | POLL_TYPE_SEMI_SOCKET
  | POLL_TYPE_CALLBACK
  | POLL_TYPE_UDP

text \<open>
  An event mask. The numeric values of \<open>LIBUS_SOCKET_READABLE\<close> and
  \<open>LIBUS_SOCKET_WRITABLE\<close> are declared outside loop.c; the mask is kept as its two bits.
\<close>

record us_events =
  ev_readable :: bool
  ev_writable :: bool

definition and_READABLE :: "us_events \<Rightarrow> us_events" where
  "and_READABLE e = e\<lparr>ev_writable := False\<rparr>"

definition and_WRITABLE :: "us_events \<Rightarrow> us_events" where
  "and_WRITABLE e = e\<lparr>ev_readable := False\<rparr>"

definition or_READABLE :: "us_events \<Rightarrow> us_events" where
  "or_READABLE e = e\<lparr>ev_readable := True\<rparr>"

definition eq_WRITABLE :: "us_events \<Rightarrow> bool" where
  "eq_WRITABLE e = (ev_writable e \<and> \<not> ev_readable e)"

record us_poll_t =
  p_fd :: int
  p_type :: poll_type
  p_events :: us_events

record us_socket_t =
  s_context :: addr
  s_prev :: "addr option"
  s_next :: "addr option"
  timeout :: "8 word"
  long_timeout :: "8 word"
  connect_state :: "addr option"
  low_prio_state :: nat
  allow_half_open :: bool
  is_paused :: bool
  is_ipc :: bool
  is_shut_down :: bool
  is_closed :: bool

record us_socket_context_t =
  ctx_prev :: "addr option"
  ctx_next :: "addr option"
  head_sockets :: "addr option"
  ctx_iterator :: "addr option"
  global_tick :: "32 word"
  timestamp :: "8 word"
  long_timestamp :: "8 word"
  ref_count :: int

record us_connecting_socket_t =
  c_context :: addr
  c_next :: "addr option"
  addrinfo_req :: addr

record us_udp_socket_t =
  udp_closed :: bool

record us_internal_callback_t =
  leave_poll_ready :: bool
  cb_expects_the_loop :: bool

record loop_state =
  polls :: "addr \<Rightarrow> us_poll_t"
  sockets :: "addr \<Rightarrow> us_socket_t"
  contexts :: "addr \<Rightarrow> us_socket_context_t"
  connecting :: "addr \<Rightarrow> us_connecting_socket_t"
  udp_sockets :: "addr \<Rightarrow> us_udp_socket_t"
  internal_callbacks :: "addr \<Rightarrow> us_internal_callback_t"
  head :: "addr option"
  iterator :: "addr option"
  low_prio_head :: "addr option"
  low_prio_budget :: int
  dns_ready_head :: "addr option"
  iteration_nr :: int
  num_ready_polls :: int
  last_write_failed :: bool
  sweep_timer_count :: int
  wakeups :: nat
  heap_top :: addr

text \<open>A write through a pointer: \<open>s->field = v\<close> is \<open>upd_socket s (\<lambda>x. x\<lparr>field := v\<rparr>)\<close>.\<close>

definition upd_socket :: "addr \<Rightarrow> (us_socket_t \<Rightarrow> us_socket_t) \<Rightarrow> loop_state \<Rightarrow> loop_state" where
  "upd_socket s f st = st\<lparr>sockets := (sockets st)(s := f (sockets st s))\<rparr>"

definition upd_context ::
  "addr \<Rightarrow> (us_socket_context_t \<Rightarrow> us_socket_context_t) \<Rightarrow> loop_state \<Rightarrow> loop_state" where
  "upd_context c f st = st\<lparr>contexts := (contexts st)(c := f (contexts st c))\<rparr>"

definition upd_poll :: "addr \<Rightarrow> (us_poll_t \<Rightarrow> us_poll_t) \<Rightarrow> loop_state \<Rightarrow> loop_state" where
  "upd_poll p f st = st\<lparr>polls := (polls st)(p := f (polls st p))\<rparr>"

datatype close_code =
    LIBUS_SOCKET_CLOSE_CODE_CLEAN_SHUTDOWN
  | LIBUS_ERR
  | ERROR_FLAG int

text \<open>
  What a run calls, in order: user callbacks, system calls and the library functions
  that loop.c calls but does not define. A callback cannot touch the trace.
\<close>

datatype event =
    ON_WRITABLE addr
  | ON_DATA addr int
  | ON_FD addr int
  | ON_END addr
  | ON_OPEN addr
  | ON_SOCKET_TIMEOUT addr "8 word"
  | ON_SOCKET_LONG_TIMEOUT addr "8 word"
  | BSD_RECV addr int
  | BSD_ACCEPT addr int
  | SOCKET_CLOSE "addr option" close_code
  | AFTER_RESOLVE addr
  | AFTER_OPEN addr bool
  | ACCEPT_POLL_EVENT addr
  | INTERNAL_CB addr
  | UDP_RECVMMSG addr int
  | UDP_ON_DATA addr int
  | UDP_ON_DRAIN addr
  | UDP_CLOSE addr
  | LOW_PRIO_PROMOTED addr
  | LOW_PRIO_ADMIT_DELAYED addr
  | LOW_PRIO_ADMIT_BUDGET addr
  | LOW_PRIO_DEFERRED addr
  | PRE_CB
  | POST_CB
  | NULL_DEREF

text \<open>The callback table of a socket context (its function pointers).\<close>

record callbacks =
  is_low_prio :: "addr \<Rightarrow> loop_state \<Rightarrow> bool"
  on_open :: "addr \<Rightarrow> loop_state \<Rightarrow> loop_state"
  on_writable :: "addr \<Rightarrow> loop_state \<Rightarrow> addr option \<times> loop_state"
  on_data :: "addr \<Rightarrow> int \<Rightarrow> loop_state \<Rightarrow> addr option \<times> loop_state"
  on_fd :: "addr \<Rightarrow> int \<Rightarrow> loop_state \<Rightarrow> addr option \<times> loop_state"
  on_end :: "addr \<Rightarrow> loop_state \<Rightarrow> addr option \<times> loop_state"
  on_socket_timeout :: "(addr \<Rightarrow> loop_state \<Rightarrow> loop_state) option"
  on_socket_long_timeout :: "(addr \<Rightarrow> loop_state \<Rightarrow> loop_state) option"

text \<open>
  The functions loop.c calls and other files define, with the callbacks of the loop and
  of the UDP sockets. Their effect on the loop state is a parameter of the model.
\<close>

record env =
  cbs :: "addr \<Rightarrow> callbacks"
  us_socket_close :: "addr option \<Rightarrow> close_code \<Rightarrow> loop_state \<Rightarrow> loop_state"
  us_internal_socket_after_resolve :: "addr \<Rightarrow> loop_state \<Rightarrow> loop_state"
  us_internal_socket_after_open :: "addr \<Rightarrow> bool \<Rightarrow> loop_state \<Rightarrow> loop_state"
  internal_cb :: "addr \<Rightarrow> loop_state \<Rightarrow> loop_state"
  udp_on_data :: "addr \<Rightarrow> int \<Rightarrow> loop_state \<Rightarrow> loop_state"
  udp_on_drain :: "addr \<Rightarrow> loop_state \<Rightarrow> loop_state"
  us_udp_socket_close :: "addr \<Rightarrow> loop_state \<Rightarrow> loop_state"
  pre_cb :: "loop_state \<Rightarrow> loop_state"
  post_cb :: "loop_state \<Rightarrow> loop_state"

section \<open>Cross-thread DNS hand-off\<close>

text \<open>
  \<open>us_internal_dns_callback\<close>. The mutex serialises the producers; in this sequential
  model a call is one atomic step, as it is under the lock.
\<close>

definition us_internal_dns_callback :: "addr \<Rightarrow> addr \<Rightarrow> loop_state \<Rightarrow> loop_state" where
  "us_internal_dns_callback c req st =
     st\<lparr>connecting := (connecting st)
            (c := (connecting st c)\<lparr>addrinfo_req := req, c_next := dns_ready_head st\<rparr>),
        dns_ready_head := Some c\<rparr>"

text \<open>
  \<open>us_wakeup_loop\<close>. Modelled from the spec: \<open>us_internal_async_wakeup\<close> is missing from
  src/ (it signals the loop's async handle); the signals are counted.
\<close>

definition us_wakeup_loop :: "loop_state \<Rightarrow> loop_state" where
  "us_wakeup_loop st = st\<lparr>wakeups := Suc (wakeups st)\<rparr>"

definition us_internal_dns_callback_threadsafe :: "addr \<Rightarrow> addr \<Rightarrow> loop_state \<Rightarrow> loop_state" where
  "us_internal_dns_callback_threadsafe c req st = us_wakeup_loop (us_internal_dns_callback c req st)"

text \<open>
  \<open>us_internal_drain_pending_dns_resolve\<close>: the walk reads \<open>s->next\<close> before it calls
  \<open>us_internal_socket_after_resolve\<close>. The callee may relink anything, so the walk
  carries fuel: \<open>None\<close> is a walk that has not ended within it.
\<close>

fun us_internal_drain_pending_dns_resolve ::
  "nat \<Rightarrow> env \<Rightarrow> addr option \<Rightarrow> loop_state \<Rightarrow> (loop_state \<times> event list) option" where
  "us_internal_drain_pending_dns_resolve fuel e None st = Some (st, [])"
| "us_internal_drain_pending_dns_resolve 0 e (Some s) st = None"
| "us_internal_drain_pending_dns_resolve (Suc fuel) e (Some s) st =
     (let nxt = c_next (connecting st s);
          st1 = us_internal_socket_after_resolve e s st
      in case us_internal_drain_pending_dns_resolve fuel e nxt st1 of
           None \<Rightarrow> None
         | Some (st2, tr) \<Rightarrow> Some (st2, AFTER_RESOLVE s # tr))"

text \<open>\<open>us_internal_handle_dns_results\<close>; the \<open>bool\<close> is the returned \<open>s != NULL\<close>.\<close>

definition us_internal_handle_dns_results ::
  "nat \<Rightarrow> env \<Rightarrow> loop_state \<Rightarrow> (bool \<times> loop_state \<times> event list) option" where
  "us_internal_handle_dns_results fuel e st =
     (let s = dns_ready_head st;
          st1 = st\<lparr>dns_ready_head := None\<rparr>
      in case us_internal_drain_pending_dns_resolve fuel e s st1 of
           None \<Rightarrow> None
         | Some (st2, tr) \<Rightarrow> Some (s \<noteq> None, st2, tr))"

text \<open>A sequence of completions: the socket, its result, and which entry point delivers it.\<close>

fun dns_deliver :: "(addr \<times> addr \<times> bool) list \<Rightarrow> loop_state \<Rightarrow> loop_state" where
  "dns_deliver [] st = st"
| "dns_deliver ((c, req, threadsafe) # rest) st =
     dns_deliver rest
       (if threadsafe then us_internal_dns_callback_threadsafe c req st
        else us_internal_dns_callback c req st)"

text \<open>The DNS-ready list as the walk sees it: the sockets reached from \<open>h\<close> through \<open>c_next\<close>.\<close>

fun dns_chain :: "loop_state \<Rightarrow> addr option \<Rightarrow> addr list \<Rightarrow> bool" where
  "dns_chain st h [] = (h = None)"
| "dns_chain st h (c # cs) = (h = Some c \<and> dns_chain st (c_next (connecting st c)) cs)"

text \<open>
  What the resolver's continuation may do to the hand-off list: it may relink the socket
  it is called for (it moves it to another list), not those still waiting.
\<close>

definition after_resolve_local :: "env \<Rightarrow> bool" where
  "after_resolve_local e =
     (\<forall>s st c. c \<noteq> s \<longrightarrow>
        c_next (connecting (us_internal_socket_after_resolve e s st) c) = c_next (connecting st c))"

section \<open>Library functions called by loop.c and defined in other files\<close>

text \<open>
  Modelled from the spec: \<open>us_poll_change\<close> is missing from src/ (the poller adapter's
  \<open>change(mask)\<close>): it replaces the event mask of the poll.
\<close>

definition us_poll_change :: "addr \<Rightarrow> us_events \<Rightarrow> loop_state \<Rightarrow> loop_state" where
  "us_poll_change p events st = upd_poll p (\<lambda>x. x\<lparr>p_events := events\<rparr>) st"

text \<open>
  Modelled from the spec: \<open>us_socket_context_ref\<close> is missing from src/ (the context's
  refcount for lifetime): it increments the refcount.
\<close>

definition us_socket_context_ref :: "addr \<Rightarrow> loop_state \<Rightarrow> loop_state" where
  "us_socket_context_ref c st = upd_context c (\<lambda>x. x\<lparr>ref_count := ref_count x + 1\<rparr>) st"

text \<open>
  Modelled from the spec: \<open>us_internal_socket_context_link_socket\<close> is missing from src/
  (the registry's link primitive; a socket is linked into its context's sockets list, a
  doubly linked list with a head): the socket becomes the head of the list.
\<close>

definition us_internal_socket_context_link_socket :: "addr \<Rightarrow> addr \<Rightarrow> loop_state \<Rightarrow> loop_state" where
  "us_internal_socket_context_link_socket c s st =
     (let st1 = upd_socket s (\<lambda>x. x\<lparr>s_context := c, s_next := head_sockets (contexts st c),
                                      s_prev := None\<rparr>) st;
          st2 = (case head_sockets (contexts st1 c) of
                   None \<Rightarrow> st1
                 | Some h \<Rightarrow> upd_socket h (\<lambda>x. x\<lparr>s_prev := Some s\<rparr>) st1)
      in upd_context c (\<lambda>x. x\<lparr>head_sockets := Some s\<rparr>) st2)"

text \<open>
  Modelled from the spec: \<open>us_internal_socket_context_unlink_socket\<close> is missing from
  src/ (the registry's unlink primitive, safe against the sweep's iteration): the socket
  leaves the list, and an iterator standing on it moves to its successor.
\<close>

definition us_internal_socket_context_unlink_socket :: "addr \<Rightarrow> addr \<Rightarrow> loop_state \<Rightarrow> loop_state" where
  "us_internal_socket_context_unlink_socket c s st =
     (let st1 = (if ctx_iterator (contexts st c) = Some s
                 then upd_context c (\<lambda>x. x\<lparr>ctx_iterator := s_next (sockets st s)\<rparr>) st
                 else st);
          st2 = (case s_prev (sockets st1 s) of
                   None \<Rightarrow> upd_context c (\<lambda>x. x\<lparr>head_sockets := s_next (sockets st1 s)\<rparr>) st1
                 | Some p \<Rightarrow> upd_socket p (\<lambda>x. x\<lparr>s_next := s_next (sockets st1 s)\<rparr>) st1)
      in case s_next (sockets st2 s) of
           None \<Rightarrow> st2
         | Some n \<Rightarrow> upd_socket n (\<lambda>x. x\<lparr>s_prev := s_prev (sockets st2 s)\<rparr>) st2)"

text \<open>
  Modelled from the spec: \<open>us_socket_is_closed\<close> and \<open>us_socket_is_shut_down\<close> are missing
  from src/ (the socket's flags \<open>is_closed\<close> and \<open>is_shut_down\<close> of the data model): they
  read the flag.
\<close>

abbreviation us_socket_is_closed :: "loop_state \<Rightarrow> addr \<Rightarrow> bool" where
  "us_socket_is_closed st s \<equiv> is_closed (sockets st s)"

abbreviation us_socket_is_shut_down :: "loop_state \<Rightarrow> addr \<Rightarrow> bool" where
  "us_socket_is_shut_down st s \<equiv> is_shut_down (sockets st s)"

text \<open>
  Modelled from the spec: \<open>us_create_poll\<close> is missing from src/ (the poller adapter's
  \<open>create_poll\<close>): it returns a fresh address.
\<close>

definition us_create_poll :: "loop_state \<Rightarrow> addr \<times> loop_state" where
  "us_create_poll st = (heap_top st, st\<lparr>heap_top := Suc (heap_top st)\<rparr>)"

text \<open>
  Modelled from the spec: the constants \<open>LIBUS_RECV_BUFFER_LENGTH\<close> (R, 512 KiB) and
  \<open>LIBUS_SOCKET_ERROR\<close> (the negative result of a failed system call) are missing from
  src/.
\<close>

definition LIBUS_RECV_BUFFER_LENGTH :: int where
  "LIBUS_RECV_BUFFER_LENGTH = 524288"

definition LIBUS_SOCKET_ERROR :: int where
  "LIBUS_SOCKET_ERROR = - 1"

section \<open>The timeout sweep\<close>

text \<open>
  The walk over one context's sockets in \<open>us_internal_timer_sweep\<close> (\<open>while (s)\<close> with
  its inner seek loop): a socket that matches neither tick is stepped over, a socket that
  matches is emitted on the slow path. Callbacks may relink the chain, so the walk carries
  fuel; the trace holds what was called even when the fuel runs out. An event records the
  socket and the value of its field on entry to the callback.
\<close>

fun sweep_sockets ::
  "nat \<Rightarrow> env \<Rightarrow> addr \<Rightarrow> 8 word \<Rightarrow> 8 word \<Rightarrow> addr option \<Rightarrow> loop_state
     \<Rightarrow> loop_state option \<times> event list" where
  "sweep_sockets fuel e context short_ticks long_ticks None st = (Some st, [])"
| "sweep_sockets 0 e context short_ticks long_ticks (Some s) st = (None, [])"
| "sweep_sockets (Suc fuel) e context short_ticks long_ticks (Some s) st =
     (if short_ticks = timeout (sockets st s) \<or> long_ticks = long_timeout (sockets st s) then
        (let st1 = upd_context context (\<lambda>x. x\<lparr>ctx_iterator := Some s\<rparr>) st;
             (st2, tr1) =
               (if short_ticks = timeout (sockets st1 s) then
                  (let st' = upd_socket s (\<lambda>x. x\<lparr>timeout := 255\<rparr>) st1
                   in case on_socket_timeout (cbs e context) of
                        None \<Rightarrow> (st', [])
                      | Some cb \<Rightarrow> (cb s st', [ON_SOCKET_TIMEOUT s (timeout (sockets st' s))]))
                else (st1, []));
             (st3, tr2) =
               (if ctx_iterator (contexts st2 context) = Some s
                   \<and> long_ticks = long_timeout (sockets st2 s) then
                  (let st' = upd_socket s (\<lambda>x. x\<lparr>long_timeout := 255\<rparr>) st2
                   in case on_socket_long_timeout (cbs e context) of
                        None \<Rightarrow> (st', [])
                      | Some cb \<Rightarrow>
                          (cb s st', [ON_SOCKET_LONG_TIMEOUT s (long_timeout (sockets st' s))]))
                else (st2, []));
             s' = (if ctx_iterator (contexts st3 context) = Some s then s_next (sockets st3 s)
                   else ctx_iterator (contexts st3 context))
         in case sweep_sockets fuel e context short_ticks long_ticks s' st3 of
              (r, tr) \<Rightarrow> (r, tr1 @ tr2 @ tr))
      else sweep_sockets fuel e context short_ticks long_ticks (s_next (sockets st s)) st)"

text \<open>The timestamps of a context are updated from its tick (a \<open>uint32_t\<close>, bytes for the stamps).\<close>

definition sweep_update_ticks :: "addr \<Rightarrow> loop_state \<Rightarrow> loop_state" where
  "sweep_update_ticks context st =
     (let st1 = upd_context context (\<lambda>x. x\<lparr>global_tick := global_tick x + 1\<rparr>) st;
          st2 = upd_context context (\<lambda>x. x\<lparr>timestamp := ucast (global_tick x mod 240)\<rparr>) st1
      in upd_context context (\<lambda>x. x\<lparr>long_timestamp := ucast ((global_tick x div 15) mod 240)\<rparr>) st2)"

text \<open>The body of the loop over the contexts, for the context the loop's iterator stands on.\<close>

definition sweep_context ::
  "nat \<Rightarrow> env \<Rightarrow> addr \<Rightarrow> loop_state \<Rightarrow> loop_state option \<times> event list" where
  "sweep_context fuel e context st =
     (let st1 = sweep_update_ticks context st;
          short_ticks = timestamp (contexts st1 context);
          long_ticks = long_timestamp (contexts st1 context)
      in case sweep_sockets fuel e context short_ticks long_ticks
                (head_sockets (contexts st1 context)) st1 of
           (None, tr) \<Rightarrow> (None, tr)
         | (Some st2, tr) \<Rightarrow> (Some (upd_context context (\<lambda>x. x\<lparr>ctx_iterator := None\<rparr>) st2), tr))"

text \<open>
  The loop over the contexts: \<open>loop_data->iterator\<close> lives in the loop, and the step reads
  it again after the callbacks have run (a null iterator there is a null dereference).
\<close>

fun sweep_contexts ::
  "nat \<Rightarrow> nat \<Rightarrow> env \<Rightarrow> loop_state \<Rightarrow> loop_state option \<times> event list" where
  "sweep_contexts 0 fuel e st =
     (case iterator st of None \<Rightarrow> (Some st, []) | Some context \<Rightarrow> (None, []))"
| "sweep_contexts (Suc n) fuel e st =
     (case iterator st of
        None \<Rightarrow> (Some st, [])
      | Some context \<Rightarrow>
          (case sweep_context fuel e context st of
             (None, tr) \<Rightarrow> (None, tr)
           | (Some st1, tr) \<Rightarrow>
               (case iterator st1 of
                  None \<Rightarrow> (Some st1, tr @ [NULL_DEREF])
                | Some it \<Rightarrow>
                    (case sweep_contexts n fuel e (st1\<lparr>iterator := ctx_next (contexts st1 it)\<rparr>) of
                       (r, tr') \<Rightarrow> (r, tr @ tr')))))"

definition us_internal_timer_sweep :: "nat \<Rightarrow> env \<Rightarrow> loop_state \<Rightarrow> loop_state option \<times> event list" where
  "us_internal_timer_sweep fuel e st = sweep_contexts fuel fuel e (st\<lparr>iterator := head st\<rparr>)"

section \<open>The low-priority admission queue\<close>

definition MAX_LOW_PRIO_SOCKETS_PER_LOOP_ITERATION :: int where
  "MAX_LOW_PRIO_SOCKETS_PER_LOOP_ITERATION = 5"

text \<open>
  The body of the loop of \<open>us_internal_handle_low_priority_sockets\<close>, followed by the
  loop's step \<open>low_prio_budget--\<close> (the step's \<open>s = low_prio_head\<close> is the next read).
\<close>

definition low_prio_promote :: "addr \<Rightarrow> loop_state \<Rightarrow> loop_state" where
  "low_prio_promote s st =
     (let st1 = st\<lparr>low_prio_head := s_next (sockets st s)\<rparr>;
          st2 = (case s_next (sockets st1 s) of
                   None \<Rightarrow> st1
                 | Some n \<Rightarrow> upd_socket n (\<lambda>x. x\<lparr>s_prev := None\<rparr>) st1);
          st3 = upd_socket s (\<lambda>x. x\<lparr>s_next := None\<rparr>) st2;
          st4 = us_internal_socket_context_link_socket (s_context (sockets st3 s)) s st3;
          st5 = us_poll_change s (or_READABLE (p_events (polls st4 s))) st4;
          st6 = upd_socket s (\<lambda>x. x\<lparr>low_prio_state := 2\<rparr>) st5
      in st6\<lparr>low_prio_budget := low_prio_budget st6 - 1\<rparr>)"

lemma low_prio_budget_upd [simp]:
  "low_prio_budget (upd_socket s f st) = low_prio_budget st"
  "low_prio_budget (upd_context c g st) = low_prio_budget st"
  "low_prio_budget (upd_poll p h st) = low_prio_budget st"
  by (simp_all add: upd_socket_def upd_context_def upd_poll_def)

lemma low_prio_budget_link [simp]:
  "low_prio_budget (us_internal_socket_context_link_socket c s st) = low_prio_budget st"
  by (simp add: us_internal_socket_context_link_socket_def Let_def split: option.split)

lemma low_prio_budget_promote:
  "low_prio_budget (low_prio_promote s st) = low_prio_budget st - 1"
  by (simp add: low_prio_promote_def Let_def us_poll_change_def split: option.split)

function low_prio_loop :: "loop_state \<Rightarrow> loop_state \<times> event list" where
  "low_prio_loop st =
     (case low_prio_head st of
        None \<Rightarrow> (st, [])
      | Some s \<Rightarrow>
          if 0 < low_prio_budget st then
            (case low_prio_loop (low_prio_promote s st) of
               (st', tr) \<Rightarrow> (st', LOW_PRIO_PROMOTED s # tr))
          else (st, []))"
  by pat_completeness auto
termination
  by (relation "measure (\<lambda>st. nat (low_prio_budget st))")
     (auto simp: low_prio_budget_promote)

declare low_prio_loop.simps [simp del]

lemma low_prio_loop_empty: "low_prio_head st = None \<Longrightarrow> low_prio_loop st = (st, [])"
  by (subst low_prio_loop.simps) simp

lemma low_prio_loop_spent:
  "\<not> 0 < low_prio_budget st \<Longrightarrow> low_prio_loop st = (st, [])"
  by (subst low_prio_loop.simps) (simp split: option.split)

lemma low_prio_loop_step:
  "low_prio_head st = Some s \<Longrightarrow> 0 < low_prio_budget st \<Longrightarrow>
   low_prio_loop st =
     (fst (low_prio_loop (low_prio_promote s st)),
      LOW_PRIO_PROMOTED s # snd (low_prio_loop (low_prio_promote s st)))"
  by (subst low_prio_loop.simps) (simp split: prod.split)

definition us_internal_handle_low_priority_sockets :: "loop_state \<Rightarrow> loop_state \<times> event list" where
  "us_internal_handle_low_priority_sockets st =
     low_prio_loop (st\<lparr>low_prio_budget := MAX_LOW_PRIO_SOCKETS_PER_LOOP_ITERATION\<rparr>)"

text \<open>\<open>us_internal_loop_pre\<close>; \<open>iteration_nr\<close> is a \<open>long long\<close>, kept unbounded.\<close>

definition us_internal_loop_pre :: "nat \<Rightarrow> env \<Rightarrow> loop_state \<Rightarrow> (loop_state \<times> event list) option" where
  "us_internal_loop_pre fuel e st =
     (let st1 = st\<lparr>iteration_nr := iteration_nr st + 1\<rparr>
      in case us_internal_handle_dns_results fuel e st1 of
           None \<Rightarrow> None
         | Some (r, st2, tr1) \<Rightarrow>
             (case us_internal_handle_low_priority_sockets st2 of
                (st3, tr2) \<Rightarrow> Some (pre_cb e st3, tr1 @ tr2 @ [PRE_CB])))"

section \<open>Dispatch of a ready poll\<close>

text \<open>
  Where control goes after a phase of the socket case: \<open>FALL s eof\<close> reaches the next
  phase with the local variables \<open>s\<close> and \<open>eof\<close>; \<open>DONE\<close> leaves
  \<open>us_internal_dispatch_ready_poll\<close> (a \<open>return\<close>, or a \<open>break\<close> out of the switch).
\<close>

datatype ctl = FALL "addr option" int | DONE

text \<open>Where control goes after one pass through the body of the receive loop.\<close>

datatype iter = CONTINUE addr nat | BREAK "addr option" int | RETURN

text \<open>
  What a receive returns: the length, whether \<open>bsd_would_block()\<close> holds after it, and the
  file descriptor of an SCM_RIGHTS control message when \<open>bsd_recvmsg\<close> found one.
\<close>

record recv_result =
  len :: int
  would_block :: bool
  scm_rights :: "int option"

definition writable_phase ::
  "env \<Rightarrow> addr \<Rightarrow> int \<Rightarrow> int \<Rightarrow> us_events \<Rightarrow> loop_state \<Rightarrow> ctl \<times> loop_state \<times> event list" where
  "writable_phase e s error eof events st =
     (if ev_writable events \<and> error = 0 then
        (let st1 = st\<lparr>last_write_failed := False\<rparr>;
             (r, st2) = on_writable (cbs e (s_context (sockets st1 s))) s st1
         in case r of
              None \<Rightarrow> (DONE, st2, [ON_WRITABLE s])
            | Some s' \<Rightarrow>
                if us_socket_is_closed st2 s' then (DONE, st2, [ON_WRITABLE s])
                else (FALL (Some s') eof,
                      (if \<not> last_write_failed st2 \<or> us_socket_is_shut_down st2 s'
                       then us_poll_change s' (and_READABLE (p_events (polls st2 s'))) st2
                       else st2),
                      [ON_WRITABLE s]))
      else (FALL (Some s) eof, st, []))"

text \<open>The branch that parks a readable low-priority socket (lines 388 to 401).\<close>

definition low_prio_defer :: "addr \<Rightarrow> addr \<Rightarrow> loop_state \<Rightarrow> loop_state" where
  "low_prio_defer context s st =
     (let st1 = us_poll_change s (and_WRITABLE (p_events (polls st s))) st;
          st2 = us_socket_context_ref context st1;
          st3 = us_internal_socket_context_unlink_socket context s st2;
          st4 = upd_socket s (\<lambda>x. x\<lparr>s_prev := None\<rparr>) st3;
          st5 = upd_socket s (\<lambda>x. x\<lparr>s_next := low_prio_head st4\<rparr>) st4;
          st6 = (case s_next (sockets st5 s) of
                   None \<Rightarrow> st5
                 | Some n \<Rightarrow> upd_socket n (\<lambda>x. x\<lparr>s_prev := Some s\<rparr>) st5);
          st7 = st6\<lparr>low_prio_head := Some s\<rparr>
      in upd_socket s (\<lambda>x. x\<lparr>low_prio_state := 1\<rparr>) st7)"

text \<open>
  Admission control at the head of the readable phase: \<open>True\<close> when the receive loop is
  entered, \<open>False\<close> when the socket was parked and the switch is left.
\<close>

definition low_prio_admission :: "env \<Rightarrow> addr \<Rightarrow> loop_state \<Rightarrow> bool \<times> loop_state \<times> event list" where
  "low_prio_admission e s st =
     (let context = s_context (sockets st s) in
      if is_low_prio (cbs e context) s st then
        if low_prio_state (sockets st s) = 2 then
          (True, upd_socket s (\<lambda>x. x\<lparr>low_prio_state := 0\<rparr>) st, [LOW_PRIO_ADMIT_DELAYED s])
        else if 0 < low_prio_budget st then
          (True, st\<lparr>low_prio_budget := low_prio_budget st - 1\<rparr>, [LOW_PRIO_ADMIT_BUDGET s])
        else (False, low_prio_defer context s st, [LOW_PRIO_DEFERRED s])
      else (True, st, []))"

text \<open>
  The receive loop's handling of the length (POSIX build): \<open>repeat_recv_count\<close> is the
  loop's counter, \<open>error\<close> and \<open>eof\<close> the arguments of the dispatch.
\<close>

definition handle_length ::
  "env \<Rightarrow> int \<Rightarrow> int \<Rightarrow> addr \<Rightarrow> nat \<Rightarrow> recv_result \<Rightarrow> loop_state \<Rightarrow> iter \<times> loop_state \<times> event list" where
  "handle_length e error eof s repeat_recv_count r st =
     (if 0 < len r then
        (let (s', st1) = on_data (cbs e (s_context (sockets st s))) s (len r) st
         in case s' of
              None \<Rightarrow> (BREAK None eof, st1, [ON_DATA s (len r)])
            | Some x \<Rightarrow>
                if LIBUS_RECV_BUFFER_LENGTH - 24 * 1024 \<le> len r
                   \<and> len r \<le> LIBUS_RECV_BUFFER_LENGTH
                   \<and> (error \<noteq> 0 \<or> num_ready_polls st1 < 25)
                   \<and> \<not> us_socket_is_closed st1 x
                then
                  (let repeat_recv_count' = repeat_recv_count + (if error = 0 then 1 else 0)
                   in if \<not> (10 < repeat_recv_count' \<and> 2 < num_ready_polls st1)
                      then (CONTINUE x repeat_recv_count', st1, [ON_DATA s (len r)])
                      else (BREAK (Some x) eof, st1, [ON_DATA s (len r)]))
                else (BREAK (Some x) eof, st1, [ON_DATA s (len r)]))
      else if len r = 0 then (BREAK (Some s) 1, st, [])
      else if len r = LIBUS_SOCKET_ERROR \<and> \<not> would_block r then
        (RETURN, us_socket_close e (Some s) LIBUS_ERR st, [SOCKET_CLOSE (Some s) LIBUS_ERR])
      else (BREAK (Some s) eof, st, []))"

text \<open>
  One pass through the body of the receive loop, given what the receive returns: the
  receive itself (\<open>bsd_recvmsg\<close> with \<open>on_fd\<close> for an IPC socket, \<open>bsd_recv\<close> otherwise),
  then the handling of the length.
\<close>

definition recv_iteration ::
  "env \<Rightarrow> int \<Rightarrow> int \<Rightarrow> addr \<Rightarrow> nat \<Rightarrow> recv_result \<Rightarrow> loop_state \<Rightarrow> iter \<times> loop_state \<times> event list" where
  "recv_iteration e error eof s repeat_recv_count r st =
     (case (if is_ipc (sockets st s) \<and> 0 < len r then scm_rights r else None) of
        Some fd \<Rightarrow>
          (case on_fd (cbs e (s_context (sockets st s))) s fd st of
             (None, st1) \<Rightarrow> (RETURN, st1, [BSD_RECV s (len r), ON_FD s fd, NULL_DEREF])
           | (Some x, st1) \<Rightarrow>
               if us_socket_is_closed st1 x
               then (BREAK (Some x) eof, st1, [BSD_RECV s (len r), ON_FD s fd])
               else (case handle_length e error eof x repeat_recv_count r st1 of
                       (c, st2, tr) \<Rightarrow> (c, st2, [BSD_RECV s (len r), ON_FD s fd] @ tr)))
      | None \<Rightarrow>
          (case handle_length e error eof s repeat_recv_count r st of
             (c, st1, tr) \<Rightarrow> (c, st1, BSD_RECV s (len r) # tr)))"

text \<open>
  The receive loop \<open>do { ... } while (s)\<close>. The receives' results come from the kernel: a
  finite list of them, after which a receive would block.
\<close>

fun recv_loop ::
  "env \<Rightarrow> int \<Rightarrow> int \<Rightarrow> addr \<Rightarrow> nat \<Rightarrow> recv_result list \<Rightarrow> loop_state \<Rightarrow> ctl \<times> loop_state \<times> event list" where
  "recv_loop e error eof s repeat_recv_count [] st =
     (FALL (Some s) eof, st, [BSD_RECV s LIBUS_SOCKET_ERROR])"
| "recv_loop e error eof s repeat_recv_count (r # rs) st =
     (case recv_iteration e error eof s repeat_recv_count r st of
        (CONTINUE x repeat_recv_count', st1, tr) \<Rightarrow>
          (case recv_loop e error eof x repeat_recv_count' rs st1 of
             (c, st2, tr') \<Rightarrow> (c, st2, tr @ tr'))
      | (BREAK s' eof', st1, tr) \<Rightarrow> (FALL s' eof', st1, tr)
      | (RETURN, st1, tr) \<Rightarrow> (DONE, st1, tr))"

definition readable_phase ::
  "env \<Rightarrow> addr \<Rightarrow> int \<Rightarrow> int \<Rightarrow> us_events \<Rightarrow> recv_result list \<Rightarrow> loop_state
     \<Rightarrow> ctl \<times> loop_state \<times> event list" where
  "readable_phase e s error eof events rs st =
     (if ev_readable events then
        (case low_prio_admission e s st of
           (False, st1, tr) \<Rightarrow> (DONE, st1, tr)
         | (True, st1, tr) \<Rightarrow>
             (case recv_loop e error eof s 0 rs st1 of
                (c, st2, tr') \<Rightarrow> (c, st2, tr @ tr')))
      else (FALL (Some s) eof, st, []))"

definition eof_phase ::
  "env \<Rightarrow> addr option \<Rightarrow> int \<Rightarrow> loop_state \<Rightarrow> ctl \<times> loop_state \<times> event list" where
  "eof_phase e s_opt eof st =
     (case s_opt of
        None \<Rightarrow> (FALL None eof, st, [])
      | Some s \<Rightarrow>
          if eof \<noteq> 0 then
            if us_socket_is_closed st s then (DONE, st, [])
            else if us_socket_is_shut_down st s then
              (DONE, us_socket_close e (Some s) LIBUS_SOCKET_CLOSE_CODE_CLEAN_SHUTDOWN st,
               [SOCKET_CLOSE (Some s) LIBUS_SOCKET_CLOSE_CODE_CLEAN_SHUTDOWN])
            else if allow_half_open (sockets st s) then
              (let st1 = us_poll_change s (and_WRITABLE (p_events (polls st s))) st;
                   (s', st2) = on_end (cbs e (s_context (sockets st1 s))) s st1
               in (FALL s' eof, st2, [ON_END s]))
            else
              (let (s', st1) = on_end (cbs e (s_context (sockets st s))) s st
               in (DONE, us_socket_close e s' LIBUS_SOCKET_CLOSE_CODE_CLEAN_SHUTDOWN st1,
                   [ON_END s, SOCKET_CLOSE s' LIBUS_SOCKET_CLOSE_CODE_CLEAN_SHUTDOWN]))
          else (FALL (Some s) eof, st, []))"

definition error_phase :: "env \<Rightarrow> addr option \<Rightarrow> int \<Rightarrow> loop_state \<Rightarrow> loop_state \<times> event list" where
  "error_phase e s_opt error st =
     (case s_opt of
        None \<Rightarrow> (st, [])
      | Some s \<Rightarrow>
          if error \<noteq> 0
          then (us_socket_close e (Some s) (ERROR_FLAG error) st, [SOCKET_CLOSE (Some s) (ERROR_FLAG error)])
          else (st, []))"

text \<open>The cases \<open>POLL_TYPE_SOCKET\<close> and \<open>POLL_TYPE_SOCKET_SHUT_DOWN\<close> of the switch.\<close>

definition dispatch_socket ::
  "env \<Rightarrow> addr \<Rightarrow> int \<Rightarrow> int \<Rightarrow> us_events \<Rightarrow> recv_result list \<Rightarrow> loop_state \<Rightarrow> loop_state \<times> event list" where
  "dispatch_socket e p error eof events rs st =
     (case writable_phase e p error eof events st of
        (DONE, st1, tr1) \<Rightarrow> (st1, tr1)
      | (FALL None eof1, st1, tr1) \<Rightarrow> (st1, tr1)
      | (FALL (Some s1) eof1, st1, tr1) \<Rightarrow>
          (case readable_phase e s1 error eof1 events rs st1 of
             (DONE, st2, tr2) \<Rightarrow> (st2, tr1 @ tr2)
           | (FALL s2 eof2, st2, tr2) \<Rightarrow>
               (case eof_phase e s2 eof2 st2 of
                  (DONE, st3, tr3) \<Rightarrow> (st3, tr1 @ tr2 @ tr3)
                | (FALL s3 eof3, st3, tr3) \<Rightarrow>
                    (case error_phase e s3 error st3 of
                       (st4, tr4) \<Rightarrow> (st4, tr1 @ tr2 @ tr3 @ tr4)))))"

text \<open>
  The body of the accept loop up to and with \<open>on_open\<close>, for an accepted descriptor: the
  new socket's address and the state after the callback.
\<close>

definition accept_socket :: "env \<Rightarrow> addr \<Rightarrow> int \<Rightarrow> loop_state \<Rightarrow> addr \<times> loop_state" where
  "accept_socket e listen_socket client_fd st =
     (let (accepted_p, st1) = us_create_poll st;
          st2 = upd_poll accepted_p
                  (\<lambda>x. \<lparr>p_fd = client_fd, p_type = POLL_TYPE_SOCKET,
                         p_events = \<lparr>ev_readable = True, ev_writable = False\<rparr>\<rparr>) st1;
          context = s_context (sockets st2 listen_socket);
          st3 = upd_socket accepted_p
                  (\<lambda>x. x\<lparr>s_context := context, connect_state := None, timeout := 255,
                         long_timeout := 255, low_prio_state := 0,
                         allow_half_open := allow_half_open (sockets st2 listen_socket),
                         is_paused := False, is_ipc := False\<rparr>) st2;
          st4 = us_internal_socket_context_link_socket
                  (s_context (sockets st3 listen_socket)) accepted_p st3
      in (accepted_p, on_open (cbs e (s_context (sockets st4 listen_socket))) accepted_p st4))"

text \<open>
  The accept loop \<open>do { ... } while ((client_fd = bsd_accept_socket(...)) != LIBUS_SOCKET_ERROR)\<close>,
  entered with a descriptor already accepted. The later results of \<open>bsd_accept_socket\<close>
  come from the kernel: a finite list, after which an accept fails (it would block).
\<close>

fun accept_loop :: "env \<Rightarrow> addr \<Rightarrow> int \<Rightarrow> int list \<Rightarrow> loop_state \<Rightarrow> loop_state \<times> event list" where
  "accept_loop e listen_socket client_fd [] st =
     (case accept_socket e listen_socket client_fd st of
        (s, st1) \<Rightarrow>
          if us_socket_is_closed st1 listen_socket then (st1, [ON_OPEN s])
          else (st1, [ON_OPEN s, BSD_ACCEPT listen_socket LIBUS_SOCKET_ERROR]))"
| "accept_loop e listen_socket client_fd (fd # fds) st =
     (case accept_socket e listen_socket client_fd st of
        (s, st1) \<Rightarrow>
          if us_socket_is_closed st1 listen_socket then (st1, [ON_OPEN s])
          else if fd \<noteq> LIBUS_SOCKET_ERROR then
            (case accept_loop e listen_socket fd fds st1 of
               (st2, tr) \<Rightarrow> (st2, ON_OPEN s # BSD_ACCEPT listen_socket fd # tr))
          else (st1, [ON_OPEN s, BSD_ACCEPT listen_socket fd]))"

text \<open>The case \<open>POLL_TYPE_SEMI_SOCKET\<close> of the switch.\<close>

definition dispatch_semi_socket ::
  "env \<Rightarrow> addr \<Rightarrow> int \<Rightarrow> int \<Rightarrow> int list \<Rightarrow> loop_state \<Rightarrow> loop_state \<times> event list" where
  "dispatch_semi_socket e p error eof accepts st =
     (if eq_WRITABLE (p_events (polls st p)) then
        (us_internal_socket_after_open e p (error \<noteq> 0 \<or> eof \<noteq> 0) st,
         [AFTER_OPEN p (error \<noteq> 0 \<or> eof \<noteq> 0)])
      else
        (case accepts of
           [] \<Rightarrow> (st, [BSD_ACCEPT p LIBUS_SOCKET_ERROR])
         | client_fd # fds \<Rightarrow>
             if client_fd = LIBUS_SOCKET_ERROR then (st, [BSD_ACCEPT p client_fd])
             else (case accept_loop e p client_fd fds st of
                     (st1, tr) \<Rightarrow> (st1, BSD_ACCEPT p client_fd # tr))))"

text \<open>
  The case \<open>POLL_TYPE_CALLBACK\<close> of the switch (a build without libuv). The callback gets
  the loop or the poll, as \<open>cb_expects_the_loop\<close> says; its effect is the environment's.
\<close>

definition dispatch_callback :: "env \<Rightarrow> addr \<Rightarrow> loop_state \<Rightarrow> loop_state \<times> event list" where
  "dispatch_callback e p st =
     (internal_cb e p st,
      (if \<not> leave_poll_ready (internal_callbacks st p) then [ACCEPT_POLL_EVENT p] else [])
        @ [INTERNAL_CB p])"

text \<open>
  The receive loop of a UDP socket, \<open>do { ... } while (!u->closed)\<close>: the results of
  \<open>bsd_recvmmsg\<close> (the number of packets, and whether \<open>bsd_would_block()\<close> holds) come
  from the kernel as a finite list, after which a receive would block. The \<open>int\<close> is the
  local variable \<open>error\<close> after the loop.
\<close>

fun udp_recv_loop ::
  "env \<Rightarrow> addr \<Rightarrow> int \<Rightarrow> (int \<times> bool) list \<Rightarrow> loop_state \<Rightarrow> int \<times> loop_state \<times> event list" where
  "udp_recv_loop e u error [] st = (error, st, [UDP_RECVMMSG u LIBUS_SOCKET_ERROR])"
| "udp_recv_loop e u error ((npackets, blocked) # rs) st =
     (if 0 < npackets then
        (let st1 = udp_on_data e u npackets st
         in if \<not> udp_closed (udp_sockets st1 u) then
              (case udp_recv_loop e u error rs st1 of
                 (error', st2, tr) \<Rightarrow>
                   (error', st2, UDP_RECVMMSG u npackets # UDP_ON_DATA u npackets # tr))
            else (error, st1, [UDP_RECVMMSG u npackets, UDP_ON_DATA u npackets]))
      else
        ((if npackets = LIBUS_SOCKET_ERROR \<and> \<not> blocked then 1 else error), st,
         [UDP_RECVMMSG u npackets]))"

text \<open>The case \<open>POLL_TYPE_UDP\<close> of the switch.\<close>

definition dispatch_udp ::
  "env \<Rightarrow> addr \<Rightarrow> int \<Rightarrow> us_events \<Rightarrow> (int \<times> bool) list \<Rightarrow> loop_state \<Rightarrow> loop_state \<times> event list" where
  "dispatch_udp e u error events rs st =
     (if udp_closed (udp_sockets st u) then (st, [])
      else
        (case (if ev_readable events then udp_recv_loop e u error rs st else (error, st, [])) of
           (error1, st1, tr1) \<Rightarrow>
             (case (if ev_writable events \<and> error1 = 0 \<and> \<not> udp_closed (udp_sockets st1 u)
                    then (let st' = udp_on_drain e u st1
                          in if udp_closed (udp_sockets st' u) then (False, st', [UDP_ON_DRAIN u])
                             else (True, us_poll_change u (and_READABLE (p_events (polls st' u))) st',
                                   [UDP_ON_DRAIN u]))
                    else (True, st1, [])) of
                (False, st2, tr2) \<Rightarrow> (st2, tr1 @ tr2)
              | (True, st2, tr2) \<Rightarrow>
                  if error1 \<noteq> 0 \<and> \<not> udp_closed (udp_sockets st2 u)
                  then (us_udp_socket_close e u st2, tr1 @ tr2 @ [UDP_CLOSE u])
                  else (st2, tr1 @ tr2))))"

text \<open>
  What the poller reports for a ready poll, with what the kernel will answer to the
  system calls of its dispatch.
\<close>

record ready_poll =
  rp_poll :: addr
  rp_error :: int
  rp_eof :: int
  rp_events :: us_events
  rp_recvs :: "recv_result list"
  rp_accepts :: "int list"
  rp_recvmmsgs :: "(int \<times> bool) list"

definition us_internal_dispatch_ready_poll :: "env \<Rightarrow> ready_poll \<Rightarrow> loop_state \<Rightarrow> loop_state \<times> event list" where
  "us_internal_dispatch_ready_poll e rp st =
     (case p_type (polls st (rp_poll rp)) of
        POLL_TYPE_CALLBACK \<Rightarrow> dispatch_callback e (rp_poll rp) st
      | POLL_TYPE_SEMI_SOCKET \<Rightarrow>
          dispatch_semi_socket e (rp_poll rp) (rp_error rp) (rp_eof rp) (rp_accepts rp) st
      | POLL_TYPE_SOCKET_SHUT_DOWN \<Rightarrow>
          dispatch_socket e (rp_poll rp) (rp_error rp) (rp_eof rp) (rp_events rp) (rp_recvs rp) st
      | POLL_TYPE_SOCKET \<Rightarrow>
          dispatch_socket e (rp_poll rp) (rp_error rp) (rp_eof rp) (rp_events rp) (rp_recvs rp) st
      | POLL_TYPE_UDP \<Rightarrow>
          dispatch_udp e (rp_poll rp) (rp_error rp) (rp_events rp) (rp_recvmmsgs rp) st)"

text \<open>
  Modelled from the spec: the function that runs the loop is missing from src/ (between
  iterations: pre-hook, poll-wait, dispatch, post-hook). The dispatch of one iteration is
  one call of \<open>us_internal_dispatch_ready_poll\<close> for each ready poll, in the poller's order.
\<close>

fun dispatch_ready_polls :: "env \<Rightarrow> ready_poll list \<Rightarrow> loop_state \<Rightarrow> loop_state \<times> event list" where
  "dispatch_ready_polls e [] st = (st, [])"
| "dispatch_ready_polls e (rp # rps) st =
     (case us_internal_dispatch_ready_poll e rp st of
        (st1, tr1) \<Rightarrow>
          (case dispatch_ready_polls e rps st1 of
             (st2, tr2) \<Rightarrow> (st2, tr1 @ tr2)))"

section \<open>Concrete states for the examples\<close>

text \<open>A loop as \<open>calloc\<close> leaves it: every field zero, every pointer null.\<close>

definition zero_socket :: us_socket_t where
  "zero_socket = \<lparr>s_context = 0, s_prev = None, s_next = None, timeout = 0, long_timeout = 0,
     connect_state = None, low_prio_state = 0, allow_half_open = False, is_paused = False,
     is_ipc = False, is_shut_down = False, is_closed = False\<rparr>"

definition zero_context :: us_socket_context_t where
  "zero_context = \<lparr>ctx_prev = None, ctx_next = None, head_sockets = None, ctx_iterator = None,
     global_tick = 0, timestamp = 0, long_timestamp = 0, ref_count = 0\<rparr>"

definition zero_loop :: loop_state where
  "zero_loop = \<lparr>polls = (\<lambda>_. \<lparr>p_fd = 0, p_type = POLL_TYPE_SOCKET,
                               p_events = \<lparr>ev_readable = False, ev_writable = False\<rparr>\<rparr>),
     sockets = (\<lambda>_. zero_socket),
     contexts = (\<lambda>_. zero_context),
     connecting = (\<lambda>_. \<lparr>c_context = 0, c_next = None, addrinfo_req = 0\<rparr>),
     udp_sockets = (\<lambda>_. \<lparr>udp_closed = False\<rparr>),
     internal_callbacks = (\<lambda>_. \<lparr>leave_poll_ready = False, cb_expects_the_loop = False\<rparr>),
     head = None, iterator = None, low_prio_head = None, low_prio_budget = 0,
     dns_ready_head = None, iteration_nr = 0, num_ready_polls = 0, last_write_failed = False,
     sweep_timer_count = 0, wakeups = 0, heap_top = 100\<rparr>"

text \<open>Callbacks that return their socket and leave the state alone.\<close>

definition idle_callbacks :: callbacks where
  "idle_callbacks = \<lparr>is_low_prio = (\<lambda>s st. False), on_open = (\<lambda>s st. st),
     on_writable = (\<lambda>s st. (Some s, st)), on_data = (\<lambda>s n st. (Some s, st)),
     on_fd = (\<lambda>s fd st. (Some s, st)), on_end = (\<lambda>s st. (Some s, st)),
     on_socket_timeout = Some (\<lambda>s st. st), on_socket_long_timeout = Some (\<lambda>s st. st)\<rparr>"

text \<open>A close that sets the socket's closed flag, and nothing else in the surroundings.\<close>

definition idle_env :: env where
  "idle_env = \<lparr>cbs = (\<lambda>c. idle_callbacks),
     us_socket_close = (\<lambda>s code st. case s of None \<Rightarrow> st
                                   | Some x \<Rightarrow> upd_socket x (\<lambda>y. y\<lparr>is_closed := True\<rparr>) st),
     us_internal_socket_after_resolve = (\<lambda>c st. st),
     us_internal_socket_after_open = (\<lambda>s failed st. st),
     internal_cb = (\<lambda>p st. st),
     udp_on_data = (\<lambda>u n st. st), udp_on_drain = (\<lambda>u st. st),
     us_udp_socket_close = (\<lambda>u st. st\<lparr>udp_sockets := (udp_sockets st)(u := \<lparr>udp_closed = True\<rparr>)\<rparr>),
     pre_cb = (\<lambda>st. st), post_cb = (\<lambda>st. st)\<rparr>"

section \<open>Predicates and states used by the properties of the sweep\<close>

text \<open>An event of the sweep whose recorded field is the sentinel 255 (any other event passes).\<close>

definition disarmed_on_entry :: "event \<Rightarrow> bool" where
  "disarmed_on_entry ev =
     (case ev of
        ON_SOCKET_TIMEOUT s v \<Rightarrow> v = 255
      | ON_SOCKET_LONG_TIMEOUT s v \<Rightarrow> v = 255
      | _ \<Rightarrow> True)"

text \<open>
  Two tables of callbacks that a sweep cannot tell apart if it disarms before it calls: a
  context has a timeout callback in both or in neither, and the two callbacks do the same
  to every state in which the socket they are called for has its \<open>timeout\<close> (for the
  long callback its \<open>long_timeout\<close>) at 255. On every other state they may differ.
\<close>

definition agree_when_disarmed :: "env \<Rightarrow> env \<Rightarrow> bool" where
  "agree_when_disarmed e e' =
     (\<forall>c.
        (case on_socket_timeout (cbs e c) of
           None \<Rightarrow> on_socket_timeout (cbs e' c) = None
         | Some cb \<Rightarrow>
             (\<exists>cb'. on_socket_timeout (cbs e' c) = Some cb'
                \<and> (\<forall>s st. timeout (sockets st s) = 255 \<longrightarrow> cb' s st = cb s st)))
        \<and> (case on_socket_long_timeout (cbs e c) of
             None \<Rightarrow> on_socket_long_timeout (cbs e' c) = None
           | Some cb \<Rightarrow>
               (\<exists>cb'. on_socket_long_timeout (cbs e' c) = Some cb'
                  \<and> (\<forall>s st. long_timeout (sockets st s) = 255 \<longrightarrow> cb' s st = cb s st))))"

text \<open>
  A probe: timeout callbacks that copy the field they find in their socket into a counter
  of the loop (\<open>timeout\<close> into \<open>wakeups\<close>, \<open>long_timeout\<close> into \<open>sweep_timer_count\<close>);
  and callbacks that write 255 there without looking at the socket.
\<close>

definition probe_env :: env where
  "probe_env =
     idle_env\<lparr>cbs := (\<lambda>c. idle_callbacks
       \<lparr>on_socket_timeout := Some (\<lambda>s st. st\<lparr>wakeups := unat (timeout (sockets st s))\<rparr>),
        on_socket_long_timeout :=
          Some (\<lambda>s st. st\<lparr>sweep_timer_count := uint (long_timeout (sockets st s))\<rparr>)\<rparr>)\<rparr>"

definition sentinel_env :: env where
  "sentinel_env =
     idle_env\<lparr>cbs := (\<lambda>c. idle_callbacks
       \<lparr>on_socket_timeout := Some (\<lambda>s st. st\<lparr>wakeups := 255\<rparr>),
        on_socket_long_timeout := Some (\<lambda>s st. st\<lparr>sweep_timer_count := 255\<rparr>)\<rparr>)\<rparr>"








text \<open>
  What the walk over the sockets in \<open>S\<close> leaves as it was: the loop's iterator, every
  field of the contexts but their own iterators, the links of the sockets, and the
  timeouts of the sockets outside \<open>S\<close>.
\<close>

definition walk_kept :: "addr set \<Rightarrow> loop_state \<Rightarrow> loop_state \<Rightarrow> bool" where
  "walk_kept S st st' =
     (iterator st' = iterator st \<and>
      (\<forall>c. global_tick (contexts st' c) = global_tick (contexts st c)
          \<and> timestamp (contexts st' c) = timestamp (contexts st c)
          \<and> long_timestamp (contexts st' c) = long_timestamp (contexts st c)
          \<and> ctx_next (contexts st' c) = ctx_next (contexts st c)
          \<and> head_sockets (contexts st' c) = head_sockets (contexts st c)) \<and>
      (\<forall>x. s_next (sockets st' x) = s_next (sockets st x)) \<and>
      (\<forall>x. x \<notin> S \<longrightarrow> timeout (sockets st' x) = timeout (sockets st x)
                    \<and> long_timeout (sockets st' x) = long_timeout (sockets st x)))"

text \<open>
  Two contexts: context 0 at tick 0 with the sockets 1 and 2, context 3 at the last tick
  before the \<open>uint32_t\<close> wraps. Socket 1 is armed for short tick 1 and long tick 0.
\<close>

definition sweep_example :: loop_state where
  "sweep_example =
     zero_loop\<lparr>head := Some 0,
       contexts := (contexts zero_loop)
         (0 := zero_context\<lparr>head_sockets := Some 1, ctx_next := Some 3\<rparr>,
          3 := zero_context\<lparr>global_tick := 4294967295, ctx_prev := Some 0\<rparr>),
       sockets := (sockets zero_loop)
         (1 := zero_socket\<lparr>timeout := 1, long_timeout := 0, s_next := Some 2\<rparr>,
          2 := zero_socket\<lparr>timeout := 7, long_timeout := 255, s_prev := Some 1\<rparr>)\<rparr>"

section \<open>Predicates and states used by the properties of the low-priority queue\<close>

text \<open>The promotions in a trace: how many sockets went from the queue back to their context.\<close>

definition is_promotion :: "event \<Rightarrow> bool" where
  "is_promotion ev = (case ev of LOW_PRIO_PROMOTED s \<Rightarrow> True | _ \<Rightarrow> False)"

definition promotions :: "event list \<Rightarrow> nat" where
  "promotions tr = length (filter is_promotion tr)"

text \<open>
  Six sockets parked on the low-priority list, 1 at the head and 6 last, each in state 1.
\<close>

definition parked_example :: loop_state where
  "parked_example =
     zero_loop\<lparr>low_prio_head := Some 1,
       sockets := (\<lambda>s. if 1 \<le> s \<and> s \<le> 6
                        then zero_socket\<lparr>low_prio_state := 1,
                               s_prev := (if s = 1 then None else Some (s - 1)),
                               s_next := (if s = 6 then None else Some (s + 1))\<rparr>
                        else zero_socket)\<rparr>"

section \<open>States and environments used by the properties of the dispatch\<close>

text \<open>
  A loop with three sockets polled for both events: 4 is an ordinary socket, 2 has
  already been shut down, 3 allows half-open connections; poll 9 is a listening socket.
  The low-priority budget is spent.
\<close>

definition socket_example :: loop_state where
  "socket_example =
     zero_loop\<lparr>polls := (\<lambda>p. \<lparr>p_fd = int p,
                               p_type = (if p = 9 then POLL_TYPE_SEMI_SOCKET else POLL_TYPE_SOCKET),
                               p_events = \<lparr>ev_readable = True, ev_writable = True\<rparr>\<rparr>),
       sockets := (sockets zero_loop)
         (2 := zero_socket\<lparr>is_shut_down := True\<rparr>,
          3 := zero_socket\<lparr>allow_half_open := True\<rparr>),
       num_ready_polls := 3\<rparr>"

text \<open>An environment whose contexts classify every socket as low-priority.\<close>

definition low_prio_env :: env where
  "low_prio_env = idle_env\<lparr>cbs := (\<lambda>c. idle_callbacks\<lparr>is_low_prio := (\<lambda>s st. True)\<rparr>)\<rparr>"

text \<open>An environment whose \<open>on_open\<close> closes the listening socket when it is given \<open>closer\<close>.\<close>

definition closing_env :: "addr \<Rightarrow> addr \<Rightarrow> env" where
  "closing_env listen_socket closer =
     idle_env\<lparr>cbs := (\<lambda>c. idle_callbacks\<lparr>on_open :=
       (\<lambda>s st. if s = closer then upd_socket listen_socket (\<lambda>x. x\<lparr>is_closed := True\<rparr>) st else st)\<rparr>)\<rparr>"

text \<open>A poll reported readable, with the eof flag and the error flag both set.\<close>

definition readable_eof_error :: "addr \<Rightarrow> ready_poll" where
  "readable_eof_error p =
     \<lparr>rp_poll = p, rp_error = 5, rp_eof = 1,
      rp_events = \<lparr>ev_readable = True, ev_writable = False\<rparr>,
      rp_recvs = [], rp_accepts = [], rp_recvmmsgs = []\<rparr>"

section \<open>Predicates and inputs used by the properties of the receive loop\<close>

text \<open>The receives in a trace: how many times \<open>bsd_recv\<close> or \<open>bsd_recvmsg\<close> was called.\<close>

definition is_receive :: "event \<Rightarrow> bool" where
  "is_receive ev = (case ev of BSD_RECV s n \<Rightarrow> True | _ \<Rightarrow> False)"

definition receives :: "event list \<Rightarrow> nat" where
  "receives tr = length (filter is_receive tr)"

text \<open>
  The poller sets \<open>num_ready_polls\<close>; the user's data callbacks are expected to leave it
  alone.
\<close>

definition callbacks_keep_num_ready_polls :: "env \<Rightarrow> bool" where
  "callbacks_keep_num_ready_polls e =
     (\<forall>c s n st.
        num_ready_polls (snd (on_data (cbs e c) s n st)) = num_ready_polls st \<and>
        num_ready_polls (snd (on_fd (cbs e c) s n st)) = num_ready_polls st)"

text \<open>A receive that fills the whole receive buffer.\<close>

definition full_read :: recv_result where
  "full_read = \<lparr>len = LIBUS_RECV_BUFFER_LENGTH, would_block = False, scm_rights = None\<rparr>"

text \<open>A poll reported readable with the error flag set, and what its receives will return.\<close>

definition readable_error :: "addr \<Rightarrow> recv_result list \<Rightarrow> ready_poll" where
  "readable_error p rs =
     \<lparr>rp_poll = p, rp_error = 1, rp_eof = 0,
      rp_events = \<lparr>ev_readable = True, ev_writable = False\<rparr>,
      rp_recvs = rs, rp_accepts = [], rp_recvmmsgs = []\<rparr>"

text \<open>A receive of length 0: the peer has closed its side.\<close>

definition zero_read :: recv_result where
  "zero_read = \<lparr>len = 0, would_block = False, scm_rights = None\<rparr>"

section \<open>Predicates and states used by the properties of an iteration\<close>

text \<open>
  The admissions paid out of the budget in a trace: how many readable low-priority
  sockets entered the receive loop through the branch \<open>low_prio_budget--\<close>.
\<close>

definition is_budget_admission :: "event \<Rightarrow> bool" where
  "is_budget_admission ev = (case ev of LOW_PRIO_ADMIT_BUDGET s \<Rightarrow> True | _ \<Rightarrow> False)"

definition budget_admissions :: "event list \<Rightarrow> nat" where
  "budget_admissions tr = length (filter is_budget_admission tr)"

text \<open>
  The budget is internal to the loop: the user's callbacks and the library functions that
  loop.c calls are expected to leave it alone.
\<close>

definition keeps_budget :: "(loop_state \<Rightarrow> loop_state) \<Rightarrow> bool" where
  "keeps_budget f = (\<forall>st. low_prio_budget (f st) = low_prio_budget st)"

definition env_keeps_budget :: "env \<Rightarrow> bool" where
  "env_keeps_budget e =
     (\<forall>c s n so code b.
        keeps_budget (on_open (cbs e c) s)
        \<and> keeps_budget (\<lambda>st. snd (on_writable (cbs e c) s st))
        \<and> keeps_budget (\<lambda>st. snd (on_data (cbs e c) s n st))
        \<and> keeps_budget (\<lambda>st. snd (on_fd (cbs e c) s n st))
        \<and> keeps_budget (\<lambda>st. snd (on_end (cbs e c) s st))
        \<and> keeps_budget (us_socket_close e so code)
        \<and> keeps_budget (us_internal_socket_after_resolve e s)
        \<and> keeps_budget (us_internal_socket_after_open e s b)
        \<and> keeps_budget (internal_cb e s)
        \<and> keeps_budget (udp_on_data e s n)
        \<and> keeps_budget (udp_on_drain e s)
        \<and> keeps_budget (us_udp_socket_close e s)
        \<and> keeps_budget (pre_cb e))"

text \<open>
  How one step moves the budget: it goes down by the admissions the step paid for, and a
  budget that was not negative stays so.
\<close>

definition budget_step :: "loop_state \<Rightarrow> loop_state \<Rightarrow> event list \<Rightarrow> bool" where
  "budget_step st st' tr =
     (low_prio_budget st' + int (budget_admissions tr) = low_prio_budget st
      \<and> (0 \<le> low_prio_budget st \<longrightarrow> 0 \<le> low_prio_budget st'))"

text \<open>
  The sockets that a pre-hook has promoted and that no dispatch has admitted yet (state
  2), and the admissions of such sockets in a trace: they enter the receive loop through
  the branch that resets the state to 0, without paying out of the budget.
\<close>

definition promoted_sockets :: "loop_state \<Rightarrow> addr set" where
  "promoted_sockets st = {s. low_prio_state (sockets st s) = 2}"

definition is_delayed_admission :: "event \<Rightarrow> bool" where
  "is_delayed_admission ev = (case ev of LOW_PRIO_ADMIT_DELAYED s \<Rightarrow> True | _ \<Rightarrow> False)"

definition delayed_admissions :: "event list \<Rightarrow> nat" where
  "delayed_admissions tr = length (filter is_delayed_admission tr)"

text \<open>The low-priority sockets admitted to the receive loop in a trace, by either branch.\<close>

definition low_prio_admissions :: "event list \<Rightarrow> nat" where
  "low_prio_admissions tr = delayed_admissions tr + budget_admissions tr"

text \<open>
  State 2 is written by the promotion loop only: the user's callbacks and the library
  functions that loop.c calls are expected to put no socket into it.
\<close>

definition keeps_promoted :: "loop_state \<Rightarrow> loop_state \<Rightarrow> bool" where
  "keeps_promoted st st' = (promoted_sockets st' \<subseteq> promoted_sockets st)"

definition promotes_none :: "(loop_state \<Rightarrow> loop_state) \<Rightarrow> bool" where
  "promotes_none f = (\<forall>st. keeps_promoted st (f st))"

definition env_promotes_none :: "env \<Rightarrow> bool" where
  "env_promotes_none e =
     (\<forall>c s n so code b.
        promotes_none (on_open (cbs e c) s)
        \<and> promotes_none (\<lambda>st. snd (on_writable (cbs e c) s st))
        \<and> promotes_none (\<lambda>st. snd (on_data (cbs e c) s n st))
        \<and> promotes_none (\<lambda>st. snd (on_fd (cbs e c) s n st))
        \<and> promotes_none (\<lambda>st. snd (on_end (cbs e c) s st))
        \<and> promotes_none (us_socket_close e so code)
        \<and> promotes_none (us_internal_socket_after_resolve e s)
        \<and> promotes_none (us_internal_socket_after_open e s b)
        \<and> promotes_none (internal_cb e s)
        \<and> promotes_none (udp_on_data e s n)
        \<and> promotes_none (udp_on_drain e s)
        \<and> promotes_none (us_udp_socket_close e s)
        \<and> promotes_none (pre_cb e))"

text \<open>
  How one step moves the promoted sockets: none is added, and each admission of a
  promoted socket takes one away.
\<close>

definition promoted_step :: "loop_state \<Rightarrow> loop_state \<Rightarrow> event list \<Rightarrow> bool" where
  "promoted_step st st' tr =
     (keeps_promoted st st'
      \<and> (finite (promoted_sockets st) \<longrightarrow>
           card (promoted_sockets st') + delayed_admissions tr \<le> card (promoted_sockets st)))"

text \<open>Two sockets parked on the low-priority list, 1 at the head; every other socket is fresh.\<close>

definition storm_example :: loop_state where
  "storm_example =
     zero_loop\<lparr>low_prio_head := Some 1,
       sockets := (sockets zero_loop)
         (1 := zero_socket\<lparr>low_prio_state := 1, s_next := Some 2\<rparr>,
          2 := zero_socket\<lparr>low_prio_state := 1, s_prev := Some 1\<rparr>)\<rparr>"

text \<open>
  The state the pre-hook leaves when it starts from \<open>storm_example\<close>: the sockets 1 and 2
  are promoted. And the state the next pre-hook leaves when the poller has reported no
  ready poll in between: the budget is 5 again, the two sockets are still in state 2.
\<close>

definition storm_promoted :: loop_state where
  "storm_promoted =
     fst (us_internal_handle_low_priority_sockets
            (storm_example\<lparr>iteration_nr := 1, dns_ready_head := None\<rparr>))"

definition storm_second :: loop_state where
  "storm_second = storm_promoted\<lparr>iteration_nr := 2, dns_ready_head := None, low_prio_budget := 5\<rparr>"

text \<open>A poll reported readable, with no flag set and nothing to receive.\<close>

definition readable_poll :: "addr \<Rightarrow> ready_poll" where
  "readable_poll p =
     \<lparr>rp_poll = p, rp_error = 0, rp_eof = 0,
      rp_events = \<lparr>ev_readable = True, ev_writable = False\<rparr>,
      rp_recvs = [], rp_accepts = [], rp_recvmmsgs = []\<rparr>"

section \<open>Properties of the DNS hand-off\<close>

lemma dns_chain_cong:
  "(\<And>c. c \<in> set xs \<Longrightarrow> c_next (connecting st' c) = c_next (connecting st c)) \<Longrightarrow>
   dns_chain st' h xs = dns_chain st h xs"
  by (induction xs arbitrary: h) auto

lemma dns_chain_callback:
  assumes "dns_chain st (dns_ready_head st) xs" and "c \<notin> set xs"
  shows "dns_chain (us_internal_dns_callback c req st)
           (dns_ready_head (us_internal_dns_callback c req st)) (c # xs)"
proof -
  let ?st' = "us_internal_dns_callback c req st"
  have "dns_chain ?st' (dns_ready_head st) xs = dns_chain st (dns_ready_head st) xs"
    using assms(2) by (intro dns_chain_cong) (auto simp: us_internal_dns_callback_def)
  with assms(1) show ?thesis
    by (simp add: us_internal_dns_callback_def)
qed

lemma dns_chain_wakeup [simp]: "dns_chain (us_wakeup_loop st) h xs = dns_chain st h xs"
  by (intro dns_chain_cong) (simp add: us_wakeup_loop_def)

lemma dns_ready_head_wakeup [simp]: "dns_ready_head (us_wakeup_loop st) = dns_ready_head st"
  by (simp add: us_wakeup_loop_def)

lemma connecting_wakeup [simp]: "connecting (us_wakeup_loop st) = connecting st"
  by (simp add: us_wakeup_loop_def)

lemma dns_chain_deliver:
  "dns_chain st (dns_ready_head st) xs \<Longrightarrow> distinct (map fst cs) \<Longrightarrow>
   set (map fst cs) \<inter> set xs = {} \<Longrightarrow>
   dns_chain (dns_deliver cs st) (dns_ready_head (dns_deliver cs st)) (rev (map fst cs) @ xs)"
proof (induction cs arbitrary: st xs)
  case Nil
  then show ?case by simp
next
  case (Cons a cs)
  obtain c req ts where a: "a = (c, req, ts)" by (cases a)
  let ?st1 = "if ts then us_internal_dns_callback_threadsafe c req st
              else us_internal_dns_callback c req st"
  have c: "c \<notin> set xs" using Cons.prems(3) a by auto
  have "dns_chain ?st1 (dns_ready_head ?st1) (c # xs)"
    using dns_chain_callback [OF Cons.prems(1) c, of req]
    by (simp add: us_internal_dns_callback_threadsafe_def)
  moreover have "distinct (map fst cs)" "set (map fst cs) \<inter> set (c # xs) = {}"
    using Cons.prems(2,3) a by auto
  ultimately have "dns_chain (dns_deliver cs ?st1) (dns_ready_head (dns_deliver cs ?st1))
                     (rev (map fst cs) @ c # xs)"
    by (rule Cons.IH)
  then show ?case by (simp add: a)
qed

lemma drain_chain:
  "after_resolve_local e \<Longrightarrow> dns_chain st h xs \<Longrightarrow> distinct xs \<Longrightarrow> length xs \<le> fuel \<Longrightarrow>
   \<exists>st'. us_internal_drain_pending_dns_resolve fuel e h st = Some (st', map AFTER_RESOLVE xs)"
proof (induction xs arbitrary: st h fuel)
  case Nil
  then show ?case by simp
next
  case (Cons c cs)
  then obtain n where fuel: "fuel = Suc n" and n: "length cs \<le> n"
    by (cases fuel) auto
  let ?st1 = "us_internal_socket_after_resolve e c st"
  have h: "h = Some c" and ch: "dns_chain st (c_next (connecting st c)) cs"
    using Cons.prems(2) by auto
  have "\<And>x. x \<in> set cs \<Longrightarrow> x \<noteq> c" using Cons.prems(3) by auto
  then have "dns_chain ?st1 (c_next (connecting st c)) cs = dns_chain st (c_next (connecting st c)) cs"
    using Cons.prems(1) unfolding after_resolve_local_def by (intro dns_chain_cong) blast
  with ch have "dns_chain ?st1 (c_next (connecting st c)) cs" by simp
  from Cons.IH [OF Cons.prems(1) this _ n] Cons.prems(3)
  obtain st' where "us_internal_drain_pending_dns_resolve n e (c_next (connecting st c)) ?st1
                    = Some (st', map AFTER_RESOLVE cs)"
    by auto
  then show ?case by (simp add: h fuel)
qed

text \<open>
  Claim C1, as the code has it. The hand-off list is a stack: a completion is pushed at
  the head and the drain walks from the head, so the completions delivered since the last
  drain (through either entry point) are resolved in the reverse of their order of
  arrival, newest first, and those that were already waiting come after them. This holds
  for distinct sockets, when the resolver's continuation leaves the \<open>next\<close> pointers of
  the sockets still waiting alone, and the drain then ends.
\<close>

theorem dns_results_lifo:
  assumes "after_resolve_local e"
    and "dns_chain st (dns_ready_head st) pending"
    and "distinct (map fst cs @ pending)"
    and "length cs + length pending \<le> fuel"
  shows "\<exists>st'. us_internal_handle_dns_results fuel e (dns_deliver cs st)
           = Some (cs \<noteq> [] \<or> pending \<noteq> [], st', map AFTER_RESOLVE (rev (map fst cs) @ pending))"
proof -
  let ?st = "dns_deliver cs st"
  let ?xs = "rev (map fst cs) @ pending"
  have "distinct (map fst cs)" "set (map fst cs) \<inter> set pending = {}"
    using assms(3) by auto
  from dns_chain_deliver [OF assms(2) this]
  have ch: "dns_chain ?st (dns_ready_head ?st) ?xs" .
  have "dns_chain (?st\<lparr>dns_ready_head := None\<rparr>) (dns_ready_head ?st) ?xs
        = dns_chain ?st (dns_ready_head ?st) ?xs"
    by (intro dns_chain_cong) simp
  with ch have ch': "dns_chain (?st\<lparr>dns_ready_head := None\<rparr>) (dns_ready_head ?st) ?xs"
    by simp
  have "distinct ?xs" "length ?xs \<le> fuel"
    using assms(3,4) by auto
  from drain_chain [OF assms(1) ch' this]
  obtain st' where d: "us_internal_drain_pending_dns_resolve fuel e (dns_ready_head ?st)
       (?st\<lparr>dns_ready_head := None\<rparr>) = Some (st', map AFTER_RESOLVE ?xs)"
    by auto
  have "(dns_ready_head ?st \<noteq> None) = (cs \<noteq> [] \<or> pending \<noteq> [])"
    using ch by (cases ?xs) auto
  with d show ?thesis
    by (auto simp: us_internal_handle_dns_results_def Let_def)
qed

text \<open>Three completions, delivered as 1, 2, 3, are resolved as 3, 2, 1.\<close>

theorem dns_results_lifo_witness:
  "map_option (snd \<circ> snd)
     (us_internal_handle_dns_results 3 idle_env
        (dns_deliver [(1, 10, False), (2, 20, True), (3, 30, False)] zero_loop))
   = Some [AFTER_RESOLVE 3, AFTER_RESOLVE 2, AFTER_RESOLVE 1]"
proof -
  have 1: "after_resolve_local idle_env"
    by (simp add: after_resolve_local_def idle_env_def)
  have 2: "dns_chain zero_loop (dns_ready_head zero_loop) []"
    by (simp add: zero_loop_def)
  have 3: "distinct (map fst [(1::nat, 10::nat, False), (2, 20, True), (3, 30, False)] @ [])"
    by simp
  have 4: "length [(1::nat, 10::nat, False), (2, 20, True), (3, 30, False)] + length ([]::nat list) \<le> 3"
    by simp
  from dns_results_lifo [OF 1 2 3 4] show ?thesis
    by auto
qed

text \<open>
  Claim C1 as stated (FIFO) fails: socket 1 is delivered before socket 2, and the drain
  resolves socket 2 first.
\<close>

theorem dns_results_fifo_counterexample:
  "map_option (snd \<circ> snd)
     (us_internal_handle_dns_results 2 idle_env
        (dns_deliver [(1, 10, False), (2, 20, True)] zero_loop))
   = Some [AFTER_RESOLVE 2, AFTER_RESOLVE 1]
   \<and> map_option (snd \<circ> snd)
     (us_internal_handle_dns_results 2 idle_env
        (dns_deliver [(1, 10, False), (2, 20, True)] zero_loop))
   \<noteq> Some (map AFTER_RESOLVE [1, 2])"
  by (simp add: us_internal_handle_dns_results_def us_internal_dns_callback_def
      us_internal_dns_callback_threadsafe_def us_wakeup_loop_def zero_loop_def idle_env_def
      numeral_2_eq_2)

section \<open>Properties of the timeout sweep\<close>

lemma timeout_upd_socket [simp]:
  "timeout (sockets (upd_socket s (\<lambda>x. x\<lparr>timeout := v\<rparr>) st) s) = v"
  "long_timeout (sockets (upd_socket s (\<lambda>x. x\<lparr>long_timeout := v\<rparr>) st) s) = v"
  by (simp_all add: upd_socket_def)

lemma sweep_sockets_disarmed:
  "ev \<in> set (snd (sweep_sockets fuel e c short_ticks long_ticks s st)) \<Longrightarrow> disarmed_on_entry ev"
proof (induction fuel e c short_ticks long_ticks s st rule: sweep_sockets.induct)
  case (3 fuel e c short_ticks long_ticks s st)
  then show ?case
    by (auto simp: Let_def disarmed_on_entry_def split: if_splits prod.splits option.splits)
qed simp_all

lemma sweep_context_disarmed:
  "ev \<in> set (snd (sweep_context fuel e c st)) \<Longrightarrow> disarmed_on_entry ev"
proof -
  let ?st1 = "sweep_update_ticks c st"
  have "snd (sweep_context fuel e c st)
        = snd (sweep_sockets fuel e c (timestamp (contexts ?st1 c)) (long_timestamp (contexts ?st1 c))
                 (head_sockets (contexts ?st1 c)) ?st1)"
    by (simp add: sweep_context_def Let_def split: prod.splits option.splits)
  then show "ev \<in> set (snd (sweep_context fuel e c st)) \<Longrightarrow> disarmed_on_entry ev"
    using sweep_sockets_disarmed by simp
qed

lemma sweep_contexts_disarmed:
  "ev \<in> set (snd (sweep_contexts n fuel e st)) \<Longrightarrow> disarmed_on_entry ev"
proof (induction n arbitrary: st)
  case 0
  then show ?case by (simp split: option.splits)
next
  case (Suc n)
  show ?case
  proof (cases "iterator st")
    case None
    with Suc.prems show ?thesis by simp
  next
    case (Some c)
    obtain r tr where sc: "sweep_context fuel e c st = (r, tr)" by (cases "sweep_context fuel e c st")
    have tr: "\<And>x. x \<in> set tr \<Longrightarrow> disarmed_on_entry x"
      using sweep_context_disarmed [of _ fuel e c st] by (simp add: sc)
    show ?thesis
    proof (cases r)
      case None
      with Suc.prems Some sc tr show ?thesis by simp
    next
      case r: (Some st1)
      show ?thesis
      proof (cases "iterator st1")
        case None
        with Suc.prems Some sc r tr show ?thesis
          by (auto simp: disarmed_on_entry_def)
      next
        case it: (Some i)
        with Suc.prems Some sc r tr Suc.IH [of "st1\<lparr>iterator := ctx_next (contexts st1 i)\<rparr>"]
        show ?thesis
          by (auto split: prod.splits)
      qed
    qed
  qed
qed

lemma agree_when_disarmedD:
  assumes "agree_when_disarmed e e'"
  shows "on_socket_timeout (cbs e c) = None \<Longrightarrow> on_socket_timeout (cbs e' c) = None"
    and "on_socket_timeout (cbs e c) = Some cb \<Longrightarrow>
           \<exists>cb'. on_socket_timeout (cbs e' c) = Some cb'
              \<and> (\<forall>s st. timeout (sockets st s) = 255 \<longrightarrow> cb' s st = cb s st)"
    and "on_socket_long_timeout (cbs e c) = None \<Longrightarrow> on_socket_long_timeout (cbs e' c) = None"
    and "on_socket_long_timeout (cbs e c) = Some cb \<Longrightarrow>
           \<exists>cb'. on_socket_long_timeout (cbs e' c) = Some cb'
              \<and> (\<forall>s st. long_timeout (sockets st s) = 255 \<longrightarrow> cb' s st = cb s st)"
  using assms [unfolded agree_when_disarmed_def, rule_format, of c]
  by (auto split: option.splits)

lemma short_call_agree:
  assumes "agree_when_disarmed e e'"
  shows "(case on_socket_timeout (cbs e' c) of
            None \<Rightarrow> (upd_socket s (\<lambda>x. x\<lparr>timeout := 255\<rparr>) st, [])
          | Some cb \<Rightarrow> (cb s (upd_socket s (\<lambda>x. x\<lparr>timeout := 255\<rparr>) st), tr))
         = (case on_socket_timeout (cbs e c) of
            None \<Rightarrow> (upd_socket s (\<lambda>x. x\<lparr>timeout := 255\<rparr>) st, [])
          | Some cb \<Rightarrow> (cb s (upd_socket s (\<lambda>x. x\<lparr>timeout := 255\<rparr>) st), tr))"
proof (cases "on_socket_timeout (cbs e c)")
  case None
  with agree_when_disarmedD(1) [OF assms] show ?thesis by simp
next
  case (Some cb)
  with agree_when_disarmedD(2) [OF assms Some] show ?thesis by auto
qed

lemma long_call_agree:
  assumes "agree_when_disarmed e e'"
  shows "(case on_socket_long_timeout (cbs e' c) of
            None \<Rightarrow> (upd_socket s (\<lambda>x. x\<lparr>long_timeout := 255\<rparr>) st, [])
          | Some cb \<Rightarrow> (cb s (upd_socket s (\<lambda>x. x\<lparr>long_timeout := 255\<rparr>) st), tr))
         = (case on_socket_long_timeout (cbs e c) of
            None \<Rightarrow> (upd_socket s (\<lambda>x. x\<lparr>long_timeout := 255\<rparr>) st, [])
          | Some cb \<Rightarrow> (cb s (upd_socket s (\<lambda>x. x\<lparr>long_timeout := 255\<rparr>) st), tr))"
proof (cases "on_socket_long_timeout (cbs e c)")
  case None
  with agree_when_disarmedD(3) [OF assms] show ?thesis by simp
next
  case (Some cb)
  with agree_when_disarmedD(4) [OF assms Some] show ?thesis by auto
qed

lemma sweep_sockets_agree:
  assumes a: "agree_when_disarmed e e'"
  shows "sweep_sockets fuel e' c short_ticks long_ticks s st
         = sweep_sockets fuel e c short_ticks long_ticks s st"
proof (induction fuel arbitrary: s st)
  case 0
  show ?case by (cases s) simp_all
next
  case (Suc fuel)
  show ?case
  proof (cases s)
    case None
    then show ?thesis by simp
  next
    case (Some x)
    show ?thesis
      unfolding Some
      by (simp add: Let_def short_call_agree [OF a] long_call_agree [OF a] Suc.IH
          cong: prod.case_cong if_cong)
  qed
qed

lemma sweep_context_agree:
  assumes "agree_when_disarmed e e'"
  shows "sweep_context fuel e' c st = sweep_context fuel e c st"
  by (simp add: sweep_context_def sweep_sockets_agree [OF assms])

lemma sweep_contexts_agree:
  assumes "agree_when_disarmed e e'"
  shows "sweep_contexts n fuel e' st = sweep_contexts n fuel e st"
  by (induction n arbitrary: st)
     (simp_all add: sweep_context_agree [OF assms] cong: option.case_cong prod.case_cong)

text \<open>
  Claim C5. The sweep writes the sentinel before it calls: \<open>on_socket_timeout\<close> only ever
  receives a state in which its socket's \<open>timeout\<close> is 255, and \<open>on_socket_long_timeout\<close>
  one in which its socket's \<open>long_timeout\<close> is 255. So what a callback would do with any
  other state has no effect on the sweep: two tables of callbacks that agree on the states
  with the sentinel in place give the same sweep, state and trace, from every state and
  for every length of the walk; and every call in the trace records 255.
\<close>

theorem sweep_disarms_before_callback:
  assumes "agree_when_disarmed e e'"
  shows "us_internal_timer_sweep fuel e' st = us_internal_timer_sweep fuel e st
         \<and> (\<forall>ev \<in> set (snd (us_internal_timer_sweep fuel e st)).
              (\<forall>s v. ev = ON_SOCKET_TIMEOUT s v \<longrightarrow> v = 255)
              \<and> (\<forall>s v. ev = ON_SOCKET_LONG_TIMEOUT s v \<longrightarrow> v = 255))"
proof -
  have "\<forall>ev \<in> set (snd (us_internal_timer_sweep fuel e st)). disarmed_on_entry ev"
    unfolding us_internal_timer_sweep_def using sweep_contexts_disarmed by blast
  then have "\<forall>ev \<in> set (snd (us_internal_timer_sweep fuel e st)).
              (\<forall>s v. ev = ON_SOCKET_TIMEOUT s v \<longrightarrow> v = 255)
              \<and> (\<forall>s v. ev = ON_SOCKET_LONG_TIMEOUT s v \<longrightarrow> v = 255)"
    by (auto simp: disarmed_on_entry_def)
  moreover have "us_internal_timer_sweep fuel e' st = us_internal_timer_sweep fuel e st"
    by (simp add: us_internal_timer_sweep_def sweep_contexts_agree [OF assms])
  ultimately show ?thesis by blast
qed

lemma sentinel_example_ends:
  "\<exists>st'. us_internal_timer_sweep 3 sentinel_env sweep_example
     = (Some st', [ON_SOCKET_TIMEOUT 1 255, ON_SOCKET_LONG_TIMEOUT 1 255])
     \<and> wakeups st' = 255 \<and> sweep_timer_count st' = 255"
  by (simp add: us_internal_timer_sweep_def sweep_example_def zero_loop_def zero_context_def
      zero_socket_def sentinel_env_def idle_env_def idle_callbacks_def sweep_context_def sweep_update_ticks_def
      upd_context_def upd_socket_def Let_def numeral_3_eq_3)

text \<open>
  In the example both callbacks are called for socket 1, and the probe finds 255 in the
  field each of them is called for.
\<close>

theorem sweep_disarms_before_callback_witness:
  "\<exists>st'. us_internal_timer_sweep 3 probe_env sweep_example
     = (Some st', [ON_SOCKET_TIMEOUT 1 255, ON_SOCKET_LONG_TIMEOUT 1 255])
     \<and> wakeups st' = 255 \<and> sweep_timer_count st' = 255"
proof -
  have "agree_when_disarmed sentinel_env probe_env"
    by (simp add: agree_when_disarmed_def sentinel_env_def probe_env_def idle_callbacks_def)
  from sweep_disarms_before_callback [OF this, of 3 sweep_example] sentinel_example_ends
  show ?thesis by simp
qed













lemma walk_kept_mono: "walk_kept S a b \<Longrightarrow> S \<subseteq> T \<Longrightarrow> walk_kept T a b"
  by (auto simp: walk_kept_def)













section \<open>Properties of the low-priority queue\<close>

lemma promotions_simps [simp]:
  "promotions [] = 0"
  "promotions (LOW_PRIO_PROMOTED s # tr) = Suc (promotions tr)"
  "promotions (AFTER_RESOLVE c # tr) = promotions tr"
  "promotions (PRE_CB # tr) = promotions tr"
  "promotions (a @ b) = promotions a + promotions b"
  by (simp_all add: promotions_def is_promotion_def)

lemma low_prio_loop_promotions:
  "promotions (snd (low_prio_loop st)) = length (snd (low_prio_loop st))"
proof (induction st rule: low_prio_loop.induct)
  case (1 st)
  show ?case
  proof (cases "low_prio_head st")
    case None
    then show ?thesis by (simp add: low_prio_loop_empty)
  next
    case (Some s)
    with "1.IH" show ?thesis
      by (cases "0 < low_prio_budget st")
         (simp_all add: low_prio_loop_step low_prio_loop_spent split: prod.splits)
  qed
qed

lemma low_prio_loop_budget:
  "0 \<le> low_prio_budget st \<Longrightarrow>
   low_prio_budget (fst (low_prio_loop st)) = low_prio_budget st - int (length (snd (low_prio_loop st)))
   \<and> 0 \<le> low_prio_budget (fst (low_prio_loop st))"
proof (induction st rule: low_prio_loop.induct)
  case (1 st)
  show ?case
  proof (cases "low_prio_head st")
    case None
    with "1.prems" show ?thesis by (simp add: low_prio_loop_empty)
  next
    case (Some s)
    show ?thesis
    proof (cases "0 < low_prio_budget st")
      case True
      then have "0 \<le> low_prio_budget (low_prio_promote s st)"
        by (simp add: low_prio_budget_promote)
      from "1.IH" [OF Some True this] Some True show ?thesis
        by (simp add: low_prio_budget_promote low_prio_loop_step split: prod.splits)
    next
      case False
      with Some "1.prems" show ?thesis by (simp add: low_prio_loop_spent)
    qed
  qed
qed

lemma low_prio_state_promote:
  "x \<noteq> s \<Longrightarrow> low_prio_state (sockets (low_prio_promote s st) x) = low_prio_state (sockets st x)"
  by (simp add: low_prio_promote_def Let_def us_poll_change_def upd_socket_def upd_poll_def
      upd_context_def us_internal_socket_context_link_socket_def split: option.split)

lemma low_prio_loop_states:
  "low_prio_state (sockets (fst (low_prio_loop st)) x) \<noteq> low_prio_state (sockets st x) \<Longrightarrow>
   LOW_PRIO_PROMOTED x \<in> set (snd (low_prio_loop st))"
proof (induction st rule: low_prio_loop.induct)
  case (1 st)
  show ?case
  proof (cases "low_prio_head st")
    case None
    with "1.prems" show ?thesis by (simp add: low_prio_loop_empty)
  next
    case (Some s)
    show ?thesis
    proof (cases "0 < low_prio_budget st")
      case True
      show ?thesis
      proof (cases "x = s")
        case True
        with Some \<open>0 < low_prio_budget st\<close> show ?thesis
          by (simp add: low_prio_loop_step split: prod.splits)
      next
        case False
        with "1.prems" Some True
        have "low_prio_state (sockets (fst (low_prio_loop (low_prio_promote s st))) x)
              \<noteq> low_prio_state (sockets (low_prio_promote s st) x)"
          by (simp add: low_prio_state_promote low_prio_loop_step split: prod.splits)
        from "1.IH" [OF Some True this] Some True show ?thesis
          by (simp add: low_prio_loop_step split: prod.splits)
      qed
    next
      case False
      with Some "1.prems" show ?thesis by (simp add: low_prio_loop_spent)
    qed
  qed
qed

lemma handle_low_priority_length:
  "length (snd (us_internal_handle_low_priority_sockets st)) \<le> 5"
  using low_prio_loop_budget [of "st\<lparr>low_prio_budget := MAX_LOW_PRIO_SOCKETS_PER_LOOP_ITERATION\<rparr>"]
  by (simp add: us_internal_handle_low_priority_sockets_def MAX_LOW_PRIO_SOCKETS_PER_LOOP_ITERATION_def)

text \<open>
  Claim C4. One call of \<open>us_internal_handle_low_priority_sockets\<close> promotes at most 5
  sockets: its loop runs at most 5 times, and at most 5 sockets are in state 1 before the
  call and in state 2 after it. This holds for every state of the loop, whatever the
  shape of the list.
\<close>

theorem low_prio_promotions_bounded:
  "length (snd (us_internal_handle_low_priority_sockets st)) \<le> 5
   \<and> card {s. low_prio_state (sockets st s) = 1
              \<and> low_prio_state (sockets (fst (us_internal_handle_low_priority_sockets st)) s) = 2} \<le> 5"
proof -
  let ?tr = "snd (us_internal_handle_low_priority_sockets st)"
  let ?st' = "fst (us_internal_handle_low_priority_sockets st)"
  let ?A = "{s. low_prio_state (sockets st s) = 1 \<and> low_prio_state (sockets ?st' s) = 2}"
  let ?f = "\<lambda>ev. case ev of LOW_PRIO_PROMOTED s \<Rightarrow> s | _ \<Rightarrow> 0"
  have "?A \<subseteq> ?f ` set ?tr"
  proof
    fix s assume "s \<in> ?A"
    then have "low_prio_state (sockets ?st' s)
        \<noteq> low_prio_state (sockets (st\<lparr>low_prio_budget := MAX_LOW_PRIO_SOCKETS_PER_LOOP_ITERATION\<rparr>) s)"
      by simp
    then have "LOW_PRIO_PROMOTED s \<in> set ?tr"
      unfolding us_internal_handle_low_priority_sockets_def by (rule low_prio_loop_states)
    then show "s \<in> ?f ` set ?tr" by force
  qed
  then have "card ?A \<le> card (?f ` set ?tr)"
    by (intro card_mono) simp_all
  also have "\<dots> \<le> length ?tr"
    by (rule order_trans [OF card_image_le card_length]) simp
  also have "\<dots> \<le> 5" by (rule handle_low_priority_length)
  finally show ?thesis using handle_low_priority_length by simp
qed

lemma parked_example_run:
  "snd (us_internal_handle_low_priority_sockets parked_example)
   = map LOW_PRIO_PROMOTED [1, 2, 3, 4, 5]"
  by (simp add: us_internal_handle_low_priority_sockets_def parked_example_def zero_loop_def
      zero_socket_def zero_context_def MAX_LOW_PRIO_SOCKETS_PER_LOOP_ITERATION_def
      low_prio_promote_def us_internal_socket_context_link_socket_def us_poll_change_def
      upd_socket_def upd_context_def upd_poll_def or_READABLE_def Let_def
      low_prio_loop.simps)

text \<open>With six sockets parked, the first five are promoted.\<close>

theorem low_prio_promotions_bounded_witness:
  "snd (us_internal_handle_low_priority_sockets parked_example) = map LOW_PRIO_PROMOTED [1, 2, 3, 4, 5]
   \<and> length (snd (us_internal_handle_low_priority_sockets parked_example)) = 5"
  using low_prio_promotions_bounded [of parked_example] parked_example_run by simp

lemma drain_promotions:
  "us_internal_drain_pending_dns_resolve fuel e s st = Some (st', tr) \<Longrightarrow> promotions tr = 0"
proof (induction fuel e s st arbitrary: st' tr rule: us_internal_drain_pending_dns_resolve.induct)
  case (3 fuel e s st)
  then show ?case
    by (auto simp: Let_def split: option.splits)
qed simp_all

lemma handle_low_priority_budget:
  "low_prio_budget (fst (us_internal_handle_low_priority_sockets st))
     = 5 - int (promotions (snd (us_internal_handle_low_priority_sockets st)))"
  using low_prio_loop_budget [of "st\<lparr>low_prio_budget := MAX_LOW_PRIO_SOCKETS_PER_LOOP_ITERATION\<rparr>"]
  by (simp add: us_internal_handle_low_priority_sockets_def low_prio_loop_promotions
      MAX_LOW_PRIO_SOCKETS_PER_LOOP_ITERATION_def)

lemma handle_low_priority_full_budget:
  "(low_prio_budget (fst (us_internal_handle_low_priority_sockets st)) = 5) = (low_prio_head st = None)"
proof (cases "low_prio_head st")
  case None
  then show ?thesis
    by (simp add: us_internal_handle_low_priority_sockets_def low_prio_loop_empty
        MAX_LOW_PRIO_SOCKETS_PER_LOOP_ITERATION_def)
next
  case (Some s)
  let ?st = "st\<lparr>low_prio_budget := MAX_LOW_PRIO_SOCKETS_PER_LOOP_ITERATION\<rparr>"
  have "low_prio_loop ?st = (fst (low_prio_loop (low_prio_promote s ?st)),
      LOW_PRIO_PROMOTED s # snd (low_prio_loop (low_prio_promote s ?st)))"
    using Some by (intro low_prio_loop_step) (simp_all add: MAX_LOW_PRIO_SOCKETS_PER_LOOP_ITERATION_def)
  then have "promotions (snd (us_internal_handle_low_priority_sockets st)) > 0"
    by (simp add: us_internal_handle_low_priority_sockets_def)
  with Some show ?thesis
    by (simp add: handle_low_priority_budget)
qed

lemma loop_pre_budget_eq:
  assumes "\<forall>st. low_prio_budget (pre_cb e st) = low_prio_budget st"
    and "us_internal_loop_pre fuel e st = Some (st', tr)"
  shows "low_prio_budget st' = 5 - int (promotions tr) \<and> promotions tr \<le> 5"
proof -
  let ?st1 = "st\<lparr>iteration_nr := iteration_nr st + 1\<rparr>"
  obtain r st2 tr1 where dns: "us_internal_handle_dns_results fuel e ?st1 = Some (r, st2, tr1)"
    using assms(2) by (auto simp: us_internal_loop_pre_def Let_def split: option.splits)
  have tr1: "promotions tr1 = 0"
    using dns drain_promotions
    by (auto simp: us_internal_handle_dns_results_def Let_def split: option.splits)
  let ?h = "us_internal_handle_low_priority_sockets st2"
  have st': "st' = pre_cb e (fst ?h)" and tr: "tr = tr1 @ snd ?h @ [PRE_CB]"
    using assms(2) dns by (auto simp: us_internal_loop_pre_def Let_def split: prod.splits)
  have p: "promotions tr = promotions (snd ?h)"
    by (simp add: tr tr1)
  have "promotions (snd ?h) \<le> 5"
    using handle_low_priority_length [of st2] by (simp add: low_prio_loop_promotions
        us_internal_handle_low_priority_sockets_def)
  moreover have "low_prio_budget st' = 5 - int (promotions tr)"
    using assms(1) by (simp add: st' p handle_low_priority_budget)
  ultimately show ?thesis
    by (simp add: p)
qed

text \<open>
  Claim C3, as the code has it. The promotion loop pays for each socket it promotes out
  of the budget it has just reset: when \<open>us_internal_loop_pre\<close> has returned (and the
  user's pre-callback has left the budget alone), \<open>low_prio_budget\<close> is 5 minus the number
  of sockets promoted in this pre-hook, a number that is at most 5; and the budget after
  the promotion loop is 5 exactly when the low-priority list was empty.
\<close>

theorem loop_pre_budget:
  assumes "\<forall>st. low_prio_budget (pre_cb e st) = low_prio_budget st"
    and "us_internal_loop_pre fuel e st = Some (st', tr)"
  shows "low_prio_budget st' = 5 - int (promotions tr) \<and> promotions tr \<le> 5
         \<and> (\<forall>st0. (low_prio_budget (fst (us_internal_handle_low_priority_sockets st0)) = 5)
                    = (low_prio_head st0 = None))"
  using loop_pre_budget_eq [OF assms] handle_low_priority_full_budget by simp

lemma parked_example_pre:
  "\<exists>st'. us_internal_loop_pre 0 idle_env parked_example
      = Some (st', map LOW_PRIO_PROMOTED [1, 2, 3, 4, 5] @ [PRE_CB])"
proof -
  have "us_internal_handle_dns_results 0 idle_env (parked_example\<lparr>iteration_nr := iteration_nr parked_example + 1\<rparr>)
        = Some (False, parked_example\<lparr>iteration_nr := 1, dns_ready_head := None\<rparr>, [])"
    by (simp add: us_internal_handle_dns_results_def parked_example_def zero_loop_def)
  moreover have "snd (us_internal_handle_low_priority_sockets
      (parked_example\<lparr>iteration_nr := 1, dns_ready_head := None\<rparr>))
   = map LOW_PRIO_PROMOTED [1, 2, 3, 4, 5]"
    by (simp add: us_internal_handle_low_priority_sockets_def parked_example_def zero_loop_def
      zero_socket_def zero_context_def MAX_LOW_PRIO_SOCKETS_PER_LOOP_ITERATION_def
      low_prio_promote_def us_internal_socket_context_link_socket_def us_poll_change_def
      upd_socket_def upd_context_def upd_poll_def or_READABLE_def Let_def
      low_prio_loop.simps)
  ultimately show ?thesis
    by (auto simp: us_internal_loop_pre_def Let_def split: prod.splits)
qed

text \<open>With six sockets parked, five are promoted and the budget is 0 when dispatch begins.\<close>

theorem loop_pre_budget_witness:
  "\<exists>st'. us_internal_loop_pre 0 idle_env parked_example
      = Some (st', map LOW_PRIO_PROMOTED [1, 2, 3, 4, 5] @ [PRE_CB])
    \<and> low_prio_budget st' = 0"
proof -
  obtain st' where run: "us_internal_loop_pre 0 idle_env parked_example
      = Some (st', map LOW_PRIO_PROMOTED [1, 2, 3, 4, 5] @ [PRE_CB])"
    using parked_example_pre by blast
  have 1: "\<forall>st. low_prio_budget (pre_cb idle_env st) = low_prio_budget st"
    by (simp add: idle_env_def)
  from loop_pre_budget [OF 1 run] have "low_prio_budget st' = 0" by simp
  with run show ?thesis by blast
qed

text \<open>
  Claim C3 as stated fails: with sockets parked on the low-priority list, the budget is
  not MAX when \<open>us_internal_loop_pre\<close> has returned.
\<close>

theorem loop_pre_budget_counterexample:
  "map_option (low_prio_budget \<circ> fst) (us_internal_loop_pre 0 idle_env parked_example) = Some 0
   \<and> map_option (low_prio_budget \<circ> fst) (us_internal_loop_pre 0 idle_env parked_example)
       \<noteq> Some MAX_LOW_PRIO_SOCKETS_PER_LOOP_ITERATION"
proof -
  have "us_internal_handle_dns_results 0 idle_env (parked_example\<lparr>iteration_nr := iteration_nr parked_example + 1\<rparr>)
        = Some (False, parked_example\<lparr>iteration_nr := 1, dns_ready_head := None\<rparr>, [])"
    by (simp add: us_internal_handle_dns_results_def parked_example_def zero_loop_def)
  moreover have "low_prio_budget (fst (us_internal_handle_low_priority_sockets
      (parked_example\<lparr>iteration_nr := 1, dns_ready_head := None\<rparr>))) = 0"
    by (simp add: us_internal_handle_low_priority_sockets_def parked_example_def zero_loop_def
      zero_socket_def zero_context_def MAX_LOW_PRIO_SOCKETS_PER_LOOP_ITERATION_def
      low_prio_promote_def us_internal_socket_context_link_socket_def us_poll_change_def
      upd_socket_def upd_context_def upd_poll_def or_READABLE_def Let_def
      low_prio_loop.simps)
  ultimately show ?thesis
    by (auto simp: us_internal_loop_pre_def Let_def idle_env_def
        MAX_LOW_PRIO_SOCKETS_PER_LOOP_ITERATION_def split: prod.splits)
qed

section \<open>Properties of the dispatch of a socket\<close>

lemma upd_socket_frame [simp]:
  "polls (upd_socket s f st) = polls st"
  "contexts (upd_socket s f st) = contexts st"
  "low_prio_head (upd_socket s f st) = low_prio_head st"
  "num_ready_polls (upd_socket s f st) = num_ready_polls st"
  by (simp_all add: upd_socket_def)

lemma upd_context_frame [simp]:
  "polls (upd_context c g st) = polls st"
  "sockets (upd_context c g st) = sockets st"
  "low_prio_head (upd_context c g st) = low_prio_head st"
  "num_ready_polls (upd_context c g st) = num_ready_polls st"
  by (simp_all add: upd_context_def)

lemma upd_poll_frame [simp]:
  "sockets (upd_poll p h st) = sockets st"
  "contexts (upd_poll p h st) = contexts st"
  "low_prio_head (upd_poll p h st) = low_prio_head st"
  "num_ready_polls (upd_poll p h st) = num_ready_polls st"
  by (simp_all add: upd_poll_def)

lemma unlink_socket_frame [simp]:
  "polls (us_internal_socket_context_unlink_socket c s st) = polls st"
  "low_prio_head (us_internal_socket_context_unlink_socket c s st) = low_prio_head st"
  "low_prio_budget (us_internal_socket_context_unlink_socket c s st) = low_prio_budget st"
  by (simp_all add: us_internal_socket_context_unlink_socket_def Let_def split: option.split)

lemma dispatch_socket_zero_read:
  assumes "\<not> is_low_prio (cbs e (s_context (sockets st s))) s st"
    and "\<not> is_ipc (sockets st s)" and "len r = 0"
  shows "dispatch_socket e s 0 eof \<lparr>ev_readable = True, ev_writable = False\<rparr> (r # rs) st
         = (fst (snd (eof_phase e (Some s) 1 st)),
            BSD_RECV s 0 # snd (snd (eof_phase e (Some s) 1 st)))"
proof -
  have w: "writable_phase e s 0 eof \<lparr>ev_readable = True, ev_writable = False\<rparr> st
           = (FALL (Some s) eof, st, [])"
    by (simp add: writable_phase_def)
  have a: "low_prio_admission e s st = (True, st, [])"
    using assms(1) by (simp add: low_prio_admission_def)
  have i: "recv_iteration e 0 eof s 0 r st = (BREAK (Some s) 1, st, [BSD_RECV s 0])"
    using assms(2,3) by (simp add: recv_iteration_def handle_length_def)
  have r: "readable_phase e s 0 eof \<lparr>ev_readable = True, ev_writable = False\<rparr> (r # rs) st
           = (FALL (Some s) 1, st, [BSD_RECV s 0])"
    by (simp add: readable_phase_def a i)
  obtain c3 st3 tr3 where ep: "eof_phase e (Some s) 1 st = (c3, st3, tr3)"
    by (cases "eof_phase e (Some s) 1 st")
  show ?thesis
    by (cases c3) (simp_all add: dispatch_socket_def w r ep error_phase_def split: option.split)
qed

text \<open>
  Claim C7. In the EOF phase, with the eof flag set and the socket still open: a socket
  that is already shut down is closed with CLEAN_SHUTDOWN and \<open>on_end\<close> is not called;
  else, when \<open>allow_half_open\<close> is set, READABLE is removed from the poll mask, \<open>on_end\<close>
  is called on that state and the phase does not close the socket (control goes on to
  the error phase with the socket \<open>on_end\<close> returned); else \<open>on_end\<close> is called and then
  the socket it returned is closed with CLEAN_SHUTDOWN. A read of length 0 on a readable
  socket reaches the phase in this way: the dispatch calls the receive and then exactly
  what the phase calls.
\<close>

theorem eof_phase_cases:
  assumes "eof \<noteq> 0" and "\<not> is_closed (sockets st s)"
  shows "eof_phase e (Some s) eof st =
     (if is_shut_down (sockets st s) then
        (DONE, us_socket_close e (Some s) LIBUS_SOCKET_CLOSE_CODE_CLEAN_SHUTDOWN st,
         [SOCKET_CLOSE (Some s) LIBUS_SOCKET_CLOSE_CODE_CLEAN_SHUTDOWN])
      else if allow_half_open (sockets st s) then
        (FALL (fst (on_end (cbs e (s_context (sockets st s))) s
                      (upd_poll s (\<lambda>x. x\<lparr>p_events := (p_events x)\<lparr>ev_readable := False\<rparr>\<rparr>) st))) eof,
         snd (on_end (cbs e (s_context (sockets st s))) s
                (upd_poll s (\<lambda>x. x\<lparr>p_events := (p_events x)\<lparr>ev_readable := False\<rparr>\<rparr>) st)),
         [ON_END s])
      else
        (DONE,
         us_socket_close e (fst (on_end (cbs e (s_context (sockets st s))) s st))
           LIBUS_SOCKET_CLOSE_CODE_CLEAN_SHUTDOWN (snd (on_end (cbs e (s_context (sockets st s))) s st)),
         [ON_END s,
          SOCKET_CLOSE (fst (on_end (cbs e (s_context (sockets st s))) s st))
            LIBUS_SOCKET_CLOSE_CODE_CLEAN_SHUTDOWN]))
     \<and> (\<not> is_low_prio (cbs e (s_context (sockets st s))) s st \<and> \<not> is_ipc (sockets st s)
            \<and> len r = 0 \<longrightarrow>
          dispatch_socket e s 0 eof0 \<lparr>ev_readable = True, ev_writable = False\<rparr> (r # rs) st
            = (fst (snd (eof_phase e (Some s) 1 st)),
               BSD_RECV s 0 # snd (snd (eof_phase e (Some s) 1 st))))"
proof -
  have "eof_phase e (Some s) eof st =
     (if is_shut_down (sockets st s) then
        (DONE, us_socket_close e (Some s) LIBUS_SOCKET_CLOSE_CODE_CLEAN_SHUTDOWN st,
         [SOCKET_CLOSE (Some s) LIBUS_SOCKET_CLOSE_CODE_CLEAN_SHUTDOWN])
      else if allow_half_open (sockets st s) then
        (FALL (fst (on_end (cbs e (s_context (sockets st s))) s
                      (upd_poll s (\<lambda>x. x\<lparr>p_events := (p_events x)\<lparr>ev_readable := False\<rparr>\<rparr>) st))) eof,
         snd (on_end (cbs e (s_context (sockets st s))) s
                (upd_poll s (\<lambda>x. x\<lparr>p_events := (p_events x)\<lparr>ev_readable := False\<rparr>\<rparr>) st)),
         [ON_END s])
      else
        (DONE,
         us_socket_close e (fst (on_end (cbs e (s_context (sockets st s))) s st))
           LIBUS_SOCKET_CLOSE_CODE_CLEAN_SHUTDOWN (snd (on_end (cbs e (s_context (sockets st s))) s st)),
         [ON_END s,
          SOCKET_CLOSE (fst (on_end (cbs e (s_context (sockets st s))) s st))
            LIBUS_SOCKET_CLOSE_CODE_CLEAN_SHUTDOWN]))"
    using assms
    by (simp add: eof_phase_def us_poll_change_def upd_poll_def and_WRITABLE_def Let_def
        split: prod.splits)
  then show ?thesis
    using dispatch_socket_zero_read by blast
qed

text \<open>
  The three cases on the sockets 2, 3 and 4 of the example, each reached by a read of
  length 0.
\<close>

theorem eof_phase_cases_witness:
  "snd (dispatch_socket idle_env 2 0 0 \<lparr>ev_readable = True, ev_writable = False\<rparr> [zero_read] socket_example)
     = [BSD_RECV 2 0, SOCKET_CLOSE (Some 2) LIBUS_SOCKET_CLOSE_CODE_CLEAN_SHUTDOWN]
   \<and> snd (dispatch_socket idle_env 3 0 0 \<lparr>ev_readable = True, ev_writable = False\<rparr> [zero_read] socket_example)
     = [BSD_RECV 3 0, ON_END 3]
   \<and> p_events (polls (fst (dispatch_socket idle_env 3 0 0
         \<lparr>ev_readable = True, ev_writable = False\<rparr> [zero_read] socket_example)) 3)
       = \<lparr>ev_readable = False, ev_writable = True\<rparr>
   \<and> snd (dispatch_socket idle_env 4 0 0 \<lparr>ev_readable = True, ev_writable = False\<rparr> [zero_read] socket_example)
     = [BSD_RECV 4 0, ON_END 4, SOCKET_CLOSE (Some 4) LIBUS_SOCKET_CLOSE_CODE_CLEAN_SHUTDOWN]"
proof -
  have 1: "(1::int) \<noteq> 0" by simp
  have c: "\<not> is_closed (sockets socket_example 4)" "\<not> is_closed (sockets socket_example 2)"
    "\<not> is_closed (sockets socket_example 3)"
    by (simp_all add: socket_example_def zero_loop_def zero_socket_def)
  have h: "\<And>s. \<not> is_low_prio (cbs idle_env (s_context (sockets socket_example s))) s socket_example"
    "\<not> is_ipc (sockets socket_example 2)" "\<not> is_ipc (sockets socket_example 3)"
    "\<not> is_ipc (sockets socket_example 4)" "len zero_read = 0"
    by (simp_all add: idle_env_def idle_callbacks_def socket_example_def zero_loop_def
        zero_socket_def zero_read_def)
  show ?thesis
    using eof_phase_cases [OF 1 c(1), of idle_env zero_read 0 "[]"]
      eof_phase_cases [OF 1 c(2), of idle_env zero_read 0 "[]"]
      eof_phase_cases [OF 1 c(3), of idle_env zero_read 0 "[]"] h
    by (simp add: socket_example_def zero_loop_def zero_socket_def idle_env_def idle_callbacks_def
        upd_poll_def)
qed

lemma low_prio_defer_state:
  "low_prio_state (sockets (low_prio_defer c s st) s) = 1
   \<and> low_prio_head (low_prio_defer c s st) = Some s
   \<and> p_events (polls (low_prio_defer c s st) s) = (p_events (polls st s))\<lparr>ev_readable := False\<rparr>"
proof -
  define st3 where "st3 = us_internal_socket_context_unlink_socket c s
    (us_socket_context_ref c (us_poll_change s (and_WRITABLE (p_events (polls st s))) st))"
  define st4 where "st4 = upd_socket s (\<lambda>x. x\<lparr>s_prev := None\<rparr>) st3"
  define st5 where "st5 = upd_socket s (\<lambda>x. x\<lparr>s_next := low_prio_head st4\<rparr>) st4"
  define st6 where "st6 = (case s_next (sockets st5 s) of None \<Rightarrow> st5
    | Some n \<Rightarrow> upd_socket n (\<lambda>x. x\<lparr>s_prev := Some s\<rparr>) st5)"
  have d: "low_prio_defer c s st = upd_socket s (\<lambda>x. x\<lparr>low_prio_state := 1\<rparr>) (st6\<lparr>low_prio_head := Some s\<rparr>)"
    by (simp only: low_prio_defer_def Let_def st6_def st5_def st4_def st3_def)
  have p3: "polls st3 = (polls st)(s := (polls st s)\<lparr>p_events := and_WRITABLE (p_events (polls st s))\<rparr>)"
    by (simp add: st3_def us_socket_context_ref_def us_poll_change_def) (simp add: upd_poll_def)
  have p6: "polls st6 = polls st3"
    by (simp add: st6_def st5_def st4_def split: option.split)
  show ?thesis
    by (simp add: d p6 p3 and_WRITABLE_def) (simp add: upd_socket_def)
qed

lemma low_prio_defer_is_closed:
  "is_closed (sockets (low_prio_defer c s st) x) = is_closed (sockets st x)"
proof -
  have u: "\<And>st y. is_closed (sockets (us_internal_socket_context_unlink_socket c s st) y)
      = is_closed (sockets st y)"
    by (simp add: us_internal_socket_context_unlink_socket_def Let_def upd_socket_def
        split: option.split)
  define st3 where "st3 = us_internal_socket_context_unlink_socket c s
    (us_socket_context_ref c (us_poll_change s (and_WRITABLE (p_events (polls st s))) st))"
  define st4 where "st4 = upd_socket s (\<lambda>x. x\<lparr>s_prev := None\<rparr>) st3"
  define st5 where "st5 = upd_socket s (\<lambda>x. x\<lparr>s_next := low_prio_head st4\<rparr>) st4"
  define st6 where "st6 = (case s_next (sockets st5 s) of None \<Rightarrow> st5
    | Some n \<Rightarrow> upd_socket n (\<lambda>x. x\<lparr>s_prev := Some s\<rparr>) st5)"
  have d: "low_prio_defer c s st = upd_socket s (\<lambda>x. x\<lparr>low_prio_state := 1\<rparr>) (st6\<lparr>low_prio_head := Some s\<rparr>)"
    by (simp only: low_prio_defer_def Let_def st6_def st5_def st4_def st3_def)
  have c3: "\<And>y. is_closed (sockets st3 y) = is_closed (sockets st y)"
    by (simp add: st3_def u us_socket_context_ref_def us_poll_change_def)
  have c5: "\<And>y. is_closed (sockets st5 y) = is_closed (sockets st3 y)"
    by (simp add: st5_def st4_def upd_socket_def)
  have c6: "\<And>y. is_closed (sockets st6 y) = is_closed (sockets st5 y)"
    by (simp add: st6_def upd_socket_def split: option.split)
  show ?thesis
    by (simp add: d upd_socket_def c6 c5 c3)
qed

lemma dispatch_socket_deferred:
  assumes "writable_phase e p error eof events st = (FALL (Some s) eof1, st1, tr1)"
    and "ev_readable events"
    and "is_low_prio (cbs e (s_context (sockets st1 s))) s st1"
    and "low_prio_state (sockets st1 s) \<noteq> 2"
    and "\<not> 0 < low_prio_budget st1"
  shows "dispatch_socket e p error eof events rs st
           = (low_prio_defer (s_context (sockets st1 s)) s st1, tr1 @ [LOW_PRIO_DEFERRED s])"
proof -
  have "low_prio_admission e s st1
        = (False, low_prio_defer (s_context (sockets st1 s)) s st1, [LOW_PRIO_DEFERRED s])"
    using assms(3,4,5) by (simp add: low_prio_admission_def Let_def)
  then have "readable_phase e s error eof1 events rs st1
        = (DONE, low_prio_defer (s_context (sockets st1 s)) s st1, [LOW_PRIO_DEFERRED s])"
    using assms(2) by (simp add: readable_phase_def)
  then show ?thesis
    using assms(1) by (simp add: dispatch_socket_def)
qed

text \<open>
  Claim C2, as the code has it. When a readable low-priority socket is deferred (it is
  not in state 2 and the budget is spent), the \<open>break\<close> of that branch leaves the switch:
  the dispatch of this poll event ends there. After what the writable phase called,
  nothing is called: no receive, no \<open>on_data\<close>, no \<open>on_end\<close>, no close, whatever the eof
  and error flags are. The socket is left in state 1 at the head of the low-priority
  list, with READABLE removed from its poll mask.
\<close>

theorem deferred_socket_ends_dispatch:
  assumes "writable_phase e p error eof events st = (FALL (Some s) eof1, st1, tr1)"
    and "ev_readable events"
    and "is_low_prio (cbs e (s_context (sockets st1 s))) s st1"
    and "low_prio_state (sockets st1 s) \<noteq> 2"
    and "\<not> 0 < low_prio_budget st1"
  shows "dispatch_socket e p error eof events rs st
           = (low_prio_defer (s_context (sockets st1 s)) s st1, tr1 @ [LOW_PRIO_DEFERRED s])
         \<and> low_prio_state (sockets (fst (dispatch_socket e p error eof events rs st)) s) = 1
         \<and> low_prio_head (fst (dispatch_socket e p error eof events rs st)) = Some s
         \<and> \<not> ev_readable (p_events (polls (fst (dispatch_socket e p error eof events rs st)) s))"
  using dispatch_socket_deferred [OF assms] by (simp add: low_prio_defer_state)

lemma socket_example_writable_phase:
  "writable_phase e 4 5 1 \<lparr>ev_readable = True, ev_writable = False\<rparr> socket_example
     = (FALL (Some 4) 1, socket_example, [])"
  by (simp add: writable_phase_def)

text \<open>Socket 4, readable with eof and error set, under a spent budget: it is parked, no more.\<close>

theorem deferred_socket_ends_dispatch_witness:
  "snd (dispatch_socket low_prio_env 4 5 1 \<lparr>ev_readable = True, ev_writable = False\<rparr> [] socket_example)
     = [LOW_PRIO_DEFERRED 4]
   \<and> low_prio_head (fst (dispatch_socket low_prio_env 4 5 1
         \<lparr>ev_readable = True, ev_writable = False\<rparr> [] socket_example)) = Some 4"
proof -
  let ?ev = "\<lparr>ev_readable = True, ev_writable = False\<rparr>"
  have 1: "writable_phase low_prio_env 4 5 1 ?ev socket_example = (FALL (Some 4) 1, socket_example, [])"
    by (rule socket_example_writable_phase)
  have 2: "ev_readable ?ev" by simp
  have 3: "is_low_prio (cbs low_prio_env (s_context (sockets socket_example 4))) 4 socket_example"
    by (simp add: low_prio_env_def)
  have 4: "low_prio_state (sockets socket_example 4) \<noteq> 2"
    by (simp add: socket_example_def zero_loop_def zero_socket_def)
  have 5: "\<not> 0 < low_prio_budget socket_example"
    by (simp add: socket_example_def zero_loop_def)
  from deferred_socket_ends_dispatch [OF 1 2 3 4 5, of "[]"] show ?thesis
    by (simp add: low_prio_defer_state)
qed

text \<open>
  Claim C2 as stated fails: the poll event has the eof flag and the error flag set, and the
  dispatch of the deferred socket runs neither the EOF phase nor the error phase (no
  \<open>on_end\<close>, no close; the socket stays open).
\<close>

theorem deferred_socket_phases_counterexample:
  "snd (us_internal_dispatch_ready_poll low_prio_env (readable_eof_error 4) socket_example)
     = [LOW_PRIO_DEFERRED 4]
   \<and> \<not> is_closed (sockets (fst (us_internal_dispatch_ready_poll low_prio_env
           (readable_eof_error 4) socket_example)) 4)"
proof -
  let ?ev = "\<lparr>ev_readable = True, ev_writable = False\<rparr>"
  have 3: "is_low_prio (cbs low_prio_env (s_context (sockets socket_example 4))) 4 socket_example"
    by (simp add: low_prio_env_def)
  have 4: "low_prio_state (sockets socket_example 4) \<noteq> 2"
    by (simp add: socket_example_def zero_loop_def zero_socket_def)
  have 5: "\<not> 0 < low_prio_budget socket_example"
    by (simp add: socket_example_def zero_loop_def)
  have t: "p_type (polls socket_example 4) = POLL_TYPE_SOCKET"
    by (simp add: socket_example_def zero_loop_def)
  have c: "\<not> is_closed (sockets socket_example 4)"
    by (simp add: socket_example_def zero_loop_def zero_socket_def)
  have "us_internal_dispatch_ready_poll low_prio_env (readable_eof_error 4) socket_example
        = dispatch_socket low_prio_env 4 5 1 ?ev [] socket_example"
    by (simp add: us_internal_dispatch_ready_poll_def readable_eof_error_def t)
  also have "\<dots> = (low_prio_defer (s_context (sockets socket_example 4)) 4 socket_example,
                   [] @ [LOW_PRIO_DEFERRED 4])"
    using socket_example_writable_phase _ 3 4 5 by (rule dispatch_socket_deferred) simp
  finally show ?thesis
    by (simp add: low_prio_defer_is_closed c)
qed

lemma accept_loop_closed:
  assumes "is_closed (sockets (snd (accept_socket e listen_socket client_fd st)) listen_socket)"
  shows "accept_loop e listen_socket client_fd fds st
         = (snd (accept_socket e listen_socket client_fd st),
            [ON_OPEN (fst (accept_socket e listen_socket client_fd st))])"
proof (cases "accept_socket e listen_socket client_fd st")
  case (Pair s st1)
  with assms show ?thesis by (cases fds) simp_all
qed

text \<open>
  Claim C9. When the \<open>on_open\<close> of an accepted socket leaves the listening socket closed,
  the accept loop ends there, whatever the kernel still has to accept: after that
  \<open>on_open\<close> there is no further accept and no further \<open>on_open\<close>. This holds at every pass
  of the loop, and so for the dispatch of the readiness event when it is the first pass.
\<close>

theorem accept_loop_stops_on_close:
  assumes "is_closed (sockets (snd (accept_socket e listen_socket client_fd st)) listen_socket)"
  shows "accept_loop e listen_socket client_fd fds st
           = (snd (accept_socket e listen_socket client_fd st),
              [ON_OPEN (fst (accept_socket e listen_socket client_fd st))])
         \<and> (\<not> eq_WRITABLE (p_events (polls st listen_socket)) \<and> client_fd \<noteq> LIBUS_SOCKET_ERROR
              \<longrightarrow> dispatch_semi_socket e listen_socket error eof (client_fd # fds) st
                    = (snd (accept_socket e listen_socket client_fd st),
                       [BSD_ACCEPT listen_socket client_fd,
                        ON_OPEN (fst (accept_socket e listen_socket client_fd st))]))"
  using accept_loop_closed [OF assms] by (simp add: dispatch_semi_socket_def)

lemma accept_socket_closing:
  "fst (accept_socket (closing_env ls c) ls fd st) = heap_top st"
  "heap_top (snd (accept_socket (closing_env ls c) ls fd st)) = Suc (heap_top st)"
  "is_closed (sockets (snd (accept_socket (closing_env ls c) ls fd st)) ls)
     = (heap_top st = c \<or> is_closed (sockets st ls))"
  "polls (snd (accept_socket (closing_env ls c) ls fd st)) ls
     = (if ls = heap_top st
        then \<lparr>p_fd = fd, p_type = POLL_TYPE_SOCKET, p_events = \<lparr>ev_readable = True, ev_writable = False\<rparr>\<rparr>
        else polls st ls)"
  by (simp_all add: accept_socket_def us_create_poll_def closing_env_def idle_env_def
      idle_callbacks_def us_internal_socket_context_link_socket_def upd_socket_def upd_poll_def
      upd_context_def Let_def split: option.split)

lemma accept_loop_open:
  assumes "\<not> is_closed (sockets (snd (accept_socket e ls fd st)) ls)"
    and "fd' \<noteq> LIBUS_SOCKET_ERROR"
  shows "accept_loop e ls fd (fd' # fds) st
         = (fst (accept_loop e ls fd' fds (snd (accept_socket e ls fd st))),
            ON_OPEN (fst (accept_socket e ls fd st)) # BSD_ACCEPT ls fd'
              # snd (accept_loop e ls fd' fds (snd (accept_socket e ls fd st))))"
  using assms by (cases "accept_socket e ls fd st") (simp split: prod.split)

lemma dispatch_semi_socket_accept:
  assumes "\<not> eq_WRITABLE (p_events (polls st p))" and "fd \<noteq> LIBUS_SOCKET_ERROR"
  shows "dispatch_semi_socket e p error eof (fd # fds) st
         = (fst (accept_loop e p fd fds st), BSD_ACCEPT p fd # snd (accept_loop e p fd fds st))"
  using assms by (simp add: dispatch_semi_socket_def split: prod.split)

text \<open>
  Three connections wait (7, 8 and 6); the \<open>on_open\<close> of the second accepted socket closes
  the listening socket, and the third connection is not accepted.
\<close>

theorem accept_loop_stops_on_close_witness:
  "snd (dispatch_semi_socket (closing_env 9 101) 9 0 0 [7, 8, 6] socket_example)
   = [BSD_ACCEPT 9 7, ON_OPEN 100, BSD_ACCEPT 9 8, ON_OPEN 101]"
proof -
  let ?e = "closing_env 9 101"
  let ?st1 = "snd (accept_socket ?e 9 7 socket_example)"
  have h: "heap_top socket_example = 100" "\<not> is_closed (sockets socket_example 9)"
    "\<not> eq_WRITABLE (p_events (polls socket_example 9))"
    by (simp_all add: socket_example_def zero_loop_def zero_socket_def eq_WRITABLE_def)
  have fds: "(7::int) \<noteq> LIBUS_SOCKET_ERROR" "(8::int) \<noteq> LIBUS_SOCKET_ERROR"
    by (simp_all add: LIBUS_SOCKET_ERROR_def)
  have open1: "\<not> is_closed (sockets ?st1 9)"
    by (simp add: accept_socket_closing h)
  have closed2: "is_closed (sockets (snd (accept_socket ?e 9 8 ?st1)) 9)"
    by (simp add: accept_socket_closing h)
  have a: "fst (accept_socket ?e 9 7 socket_example) = 100" "fst (accept_socket ?e 9 8 ?st1) = 101"
    by (simp_all add: accept_socket_closing h)
  have step2: "accept_loop ?e 9 8 [6] ?st1
        = (snd (accept_socket ?e 9 8 ?st1), [ON_OPEN (fst (accept_socket ?e 9 8 ?st1))])"
    using accept_loop_stops_on_close [OF closed2, of "[6]" 0 0] by (rule conjunct1)
  show ?thesis
    by (simp only: dispatch_semi_socket_accept [OF h(3) fds(1)] accept_loop_open [OF open1 fds(2)]
        step2 a snd_conv)
qed

section \<open>Properties of the receive loop\<close>

lemma receives_simps [simp]:
  "receives [] = 0"
  "receives (BSD_RECV s n # tr) = Suc (receives tr)"
  "receives (ON_DATA s n # tr) = receives tr"
  "receives (ON_FD s fd # tr) = receives tr"
  "receives (SOCKET_CLOSE so code # tr) = receives tr"
  "receives (NULL_DEREF # tr) = receives tr"
  "receives (a @ b) = receives a + receives b"
  by (simp_all add: receives_def is_receive_def)

lemma handle_length_receives: "receives (snd (snd (handle_length e error eof s cnt r st))) = 0"
  by (simp add: handle_length_def Let_def split: prod.split option.split)

lemma recv_iteration_receives: "receives (snd (snd (recv_iteration e error eof s cnt r st))) = 1"
proof -
  have h: "\<And>x st' c st2 tr. handle_length e error eof x cnt r st' = (c, st2, tr) \<Longrightarrow> receives tr = 0"
    using handle_length_receives by (metis snd_conv)
  show ?thesis
    by (auto simp: recv_iteration_def h split: prod.split option.split)
qed

lemma handle_length_continue_iff:
  assumes "0 < len r"
  shows "(\<exists>x c st1 tr. handle_length e error eof s cnt r st = (CONTINUE x c, st1, tr)) =
     (case on_data (cbs e (s_context (sockets st s))) s (len r) st of
        (None, st1) \<Rightarrow> False
      | (Some x, st1) \<Rightarrow>
          \<not> is_closed (sockets st1 x)
          \<and> LIBUS_RECV_BUFFER_LENGTH - 24 * 1024 \<le> len r \<and> len r \<le> LIBUS_RECV_BUFFER_LENGTH
          \<and> (error \<noteq> 0 \<or> num_ready_polls st1 < 25)
          \<and> \<not> (10 < cnt + (if error = 0 then 1 else 0) \<and> 2 < num_ready_polls st1))"
  using assms by (auto simp: handle_length_def Let_def split: prod.split option.split)

lemma handle_length_continue:
  assumes "handle_length e error eof s cnt r st = (CONTINUE x c, st1, tr)"
  shows "c = cnt + (if error = 0 then 1 else 0) \<and> \<not> (10 < c \<and> 2 < num_ready_polls st1)
         \<and> st1 = snd (on_data (cbs e (s_context (sockets st s))) s (len r) st)"
  using assms by (auto simp: handle_length_def Let_def split: prod.splits option.splits if_splits)

lemma recv_iteration_continue:
  assumes "recv_iteration e error eof s cnt r st = (CONTINUE x c, st1, tr)"
    and "callbacks_keep_num_ready_polls e"
  shows "c = cnt + (if error = 0 then 1 else 0) \<and> \<not> (10 < c \<and> 2 < num_ready_polls st1)
         \<and> num_ready_polls st1 = num_ready_polls st"
proof -
  have data: "\<And>c y n st'. num_ready_polls (snd (on_data (cbs e c) y n st')) = num_ready_polls st'"
    and fd: "\<And>c y n st'. num_ready_polls (snd (on_fd (cbs e c) y n st')) = num_ready_polls st'"
    using assms(2) by (simp_all add: callbacks_keep_num_ready_polls_def)
  obtain x0 st0 tr' where hl: "handle_length e error eof x0 cnt r st0 = (CONTINUE x c, st1, tr')"
    and st0: "num_ready_polls st0 = num_ready_polls st"
  proof (cases "if is_ipc (sockets st s) \<and> 0 < len r then scm_rights r else None")
    case None
    then obtain tr' where "handle_length e error eof s cnt r st = (CONTINUE x c, st1, tr')"
      using assms(1) by (auto simp: recv_iteration_def split: prod.splits)
    then show ?thesis using that by blast
  next
    case (Some d)
    obtain y st0 where on_fd: "on_fd (cbs e (s_context (sockets st s))) s d st = (y, st0)"
      by (cases "on_fd (cbs e (s_context (sockets st s))) s d st")
    then obtain x0 tr' where "handle_length e error eof x0 cnt r st0 = (CONTINUE x c, st1, tr')"
      using assms(1) Some
      by (auto simp: recv_iteration_def split: prod.splits option.splits if_splits)
    moreover have "num_ready_polls st0 = num_ready_polls st"
      using fd [of "s_context (sockets st s)" s d st] by (simp add: on_fd)
    ultimately show ?thesis using that by blast
  qed
  from handle_length_continue [OF hl]
  have c: "c = cnt + (if error = 0 then 1 else 0)" "\<not> (10 < c \<and> 2 < num_ready_polls st1)"
    and st1: "st1 = snd (on_data (cbs e (s_context (sockets st0 x0))) x0 (len r) st0)"
    by blast+
  have "num_ready_polls st1 = num_ready_polls st"
    unfolding st1 by (simp add: data st0)
  with c show ?thesis by simp
qed

lemma recv_loop_cap:
  "error = 0 \<Longrightarrow> callbacks_keep_num_ready_polls e \<Longrightarrow> 2 < num_ready_polls st \<Longrightarrow>
   receives (snd (snd (recv_loop e error eof s cnt rs st))) \<le> max 1 (11 - cnt)"
proof (induction rs arbitrary: s cnt st)
  case Nil
  then show ?case by simp
next
  case (Cons r rs)
  obtain c st1 tr where it: "recv_iteration e error eof s cnt r st = (c, st1, tr)"
    by (cases "recv_iteration e error eof s cnt r st")
  have one: "receives tr = 1"
    using recv_iteration_receives [of e error eof s cnt r st] by (simp add: it)
  show ?case
  proof (cases c)
    case (CONTINUE x cnt')
    from recv_iteration_continue [OF it [unfolded CONTINUE] Cons.prems(2)] Cons.prems(1,3)
    have c: "cnt' = Suc cnt" "cnt' \<le> 10" "2 < num_ready_polls st1"
      by auto
    from Cons.IH [OF Cons.prems(1,2) c(3), of x cnt']
    have "receives (snd (snd (recv_loop e error eof x cnt' rs st1))) \<le> max 1 (11 - cnt')" .
    with c one show ?thesis
      by (auto simp: it CONTINUE split: prod.splits)
  next
    case (BREAK s' eof')
    with one show ?thesis by (simp add: it)
  next
    case RETURN
    with one show ?thesis by (simp add: it)
  qed
qed

text \<open>
  Claim C6, as the code has it. After \<open>on_data\<close> has returned for a read of length n > 0,
  the loop goes round again exactly when the returned socket is non-null and open,
  R - 24 KiB <= n <= R, the error flag is set or \<open>num_ready_polls\<close> < 25, and the cap has not
  been reached; the cap counts a repeat only when the error flag is not set, and stops the
  loop when the count exceeds 10 while \<open>num_ready_polls\<close> > 2. So with the error flag not
  set and \<open>num_ready_polls\<close> > 2 (callbacks leaving it alone) at most 11 receives are
  issued, the first and 10 repeats; and a read of R - 24 KiB - 1 bytes never repeats.
\<close>

theorem recv_repeat_heuristic:
  "(0 < len r \<longrightarrow>
      (\<exists>x c st1 tr. handle_length e error eof s cnt r st = (CONTINUE x c, st1, tr)) =
      (case on_data (cbs e (s_context (sockets st s))) s (len r) st of
         (None, st1) \<Rightarrow> False
       | (Some x, st1) \<Rightarrow>
           \<not> is_closed (sockets st1 x)
           \<and> LIBUS_RECV_BUFFER_LENGTH - 24 * 1024 \<le> len r \<and> len r \<le> LIBUS_RECV_BUFFER_LENGTH
           \<and> (error \<noteq> 0 \<or> num_ready_polls st1 < 25)
           \<and> \<not> (10 < cnt + (if error = 0 then 1 else 0) \<and> 2 < num_ready_polls st1)))
   \<and> (error = 0 \<and> callbacks_keep_num_ready_polls e \<and> 2 < num_ready_polls st \<longrightarrow>
        receives (snd (snd (recv_loop e error eof s 0 rs st))) \<le> 11)
   \<and> (len r = LIBUS_RECV_BUFFER_LENGTH - 24 * 1024 - 1 \<longrightarrow>
        (\<forall>x c st1 tr. handle_length e error eof s cnt r st \<noteq> (CONTINUE x c, st1, tr)))"
proof (intro conjI impI)
  assume "0 < len r"
  then show "(\<exists>x c st1 tr. handle_length e error eof s cnt r st = (CONTINUE x c, st1, tr)) =
      (case on_data (cbs e (s_context (sockets st s))) s (len r) st of
         (None, st1) \<Rightarrow> False
       | (Some x, st1) \<Rightarrow>
           \<not> is_closed (sockets st1 x)
           \<and> LIBUS_RECV_BUFFER_LENGTH - 24 * 1024 \<le> len r \<and> len r \<le> LIBUS_RECV_BUFFER_LENGTH
           \<and> (error \<noteq> 0 \<or> num_ready_polls st1 < 25)
           \<and> \<not> (10 < cnt + (if error = 0 then 1 else 0) \<and> 2 < num_ready_polls st1))"
    by (rule handle_length_continue_iff)
next
  assume "error = 0 \<and> callbacks_keep_num_ready_polls e \<and> 2 < num_ready_polls st"
  then show "receives (snd (snd (recv_loop e error eof s 0 rs st))) \<le> 11"
    using recv_loop_cap [of error e st eof s 0 rs] by simp
next
  assume "len r = LIBUS_RECV_BUFFER_LENGTH - 24 * 1024 - 1"
  then show "\<forall>x c st1 tr. handle_length e error eof s cnt r st \<noteq> (CONTINUE x c, st1, tr)"
    by (auto simp: handle_length_def Let_def LIBUS_RECV_BUFFER_LENGTH_def
        split: prod.splits option.splits)
qed

lemma idle_full_read:
  assumes "\<not> is_ipc (sockets st s)" and "\<not> is_closed (sockets st s)"
  shows "recv_iteration idle_env error eof s cnt full_read st =
     (if (error \<noteq> 0 \<or> num_ready_polls st < 25)
         \<and> \<not> (10 < cnt + (if error = 0 then 1 else 0) \<and> 2 < num_ready_polls st)
      then (CONTINUE s (cnt + (if error = 0 then 1 else 0)), st,
            [BSD_RECV s LIBUS_RECV_BUFFER_LENGTH, ON_DATA s LIBUS_RECV_BUFFER_LENGTH])
      else (BREAK (Some s) eof, st,
            [BSD_RECV s LIBUS_RECV_BUFFER_LENGTH, ON_DATA s LIBUS_RECV_BUFFER_LENGTH]))"
  using assms
  by (simp add: recv_iteration_def handle_length_def full_read_def idle_env_def idle_callbacks_def
      LIBUS_RECV_BUFFER_LENGTH_def)

lemma recv_loop_error_flag:
  assumes "error \<noteq> 0" and "\<not> is_ipc (sockets st s)" and "\<not> is_closed (sockets st s)"
    and "cnt \<le> 10"
  shows "receives (snd (snd (recv_loop idle_env error eof s cnt (replicate n full_read) st))) = Suc n
         \<and> fst (recv_loop idle_env error eof s cnt (replicate n full_read) st) = FALL (Some s) eof
         \<and> fst (snd (recv_loop idle_env error eof s cnt (replicate n full_read) st)) = st"
proof (induction n)
  case 0
  show ?case by simp
next
  case (Suc n)
  then show ?case
    using assms by (auto simp: idle_full_read split: prod.splits)
qed

lemma recv_loop_no_error_flag:
  assumes "\<not> is_ipc (sockets st s)" and "\<not> is_closed (sockets st s)"
    and "2 < num_ready_polls st" and "num_ready_polls st < 25"
  shows "cnt \<le> 10 \<Longrightarrow>
         receives (snd (snd (recv_loop idle_env 0 eof s cnt (replicate n full_read) st)))
           = min (Suc n) (11 - cnt)"
proof (induction n arbitrary: cnt)
  case 0
  then show ?case by simp
next
  case (Suc n)
  show ?case
  proof (cases "cnt \<le> 9")
    case True
    then have "Suc cnt \<le> 10" by simp
    from Suc.IH [OF this] True show ?thesis
      using assms by (auto simp: idle_full_read split: prod.splits)
  next
    case False
    with Suc.prems have "cnt = 10" by simp
    then show ?thesis
      using assms by (simp add: idle_full_read)
  qed
qed

lemma socket_example_4:
  "\<not> is_ipc (sockets socket_example 4)" "\<not> is_closed (sockets socket_example 4)"
  "num_ready_polls socket_example = 3" "s_context (sockets socket_example 4) = 0"
  "p_type (polls socket_example 4) = POLL_TYPE_SOCKET"
  by (simp_all add: socket_example_def zero_loop_def zero_socket_def)

text \<open>
  A read of exactly R bytes repeats; with 12 full reads waiting, no error flag and 3 ready
  polls, 11 receives are issued; a read of R - 24 KiB - 1 bytes does not repeat.
\<close>

theorem recv_repeat_heuristic_witness:
  "(\<exists>x c st1 tr. handle_length idle_env 0 0 4 0 full_read socket_example = (CONTINUE x c, st1, tr))
   \<and> receives (snd (snd (recv_loop idle_env 0 0 4 0 (replicate 12 full_read) socket_example))) = 11
   \<and> \<not> (\<exists>x c st1 tr. handle_length idle_env 0 0 4 0
            (full_read\<lparr>len := LIBUS_RECV_BUFFER_LENGTH - 24 * 1024 - 1\<rparr>) socket_example
          = (CONTINUE x c, st1, tr))"
proof -
  have k: "callbacks_keep_num_ready_polls idle_env"
    by (simp add: callbacks_keep_num_ready_polls_def idle_env_def idle_callbacks_def)
  have l: "0 < len full_read"
    "len (full_read\<lparr>len := LIBUS_RECV_BUFFER_LENGTH - 24 * 1024 - 1\<rparr>)
       = LIBUS_RECV_BUFFER_LENGTH - 24 * 1024 - 1"
    by (simp_all add: full_read_def LIBUS_RECV_BUFFER_LENGTH_def)
  have d: "on_data (cbs idle_env (s_context (sockets socket_example 4))) 4 (len full_read) socket_example
           = (Some 4, socket_example)"
    by (simp add: idle_env_def idle_callbacks_def)
  have exact: "receives (snd (snd (recv_loop idle_env 0 0 4 0 (replicate 12 full_read) socket_example)))
           = min (Suc 12) (11 - 0)"
    by (rule recv_loop_no_error_flag) (simp_all add: socket_example_4)
  from recv_repeat_heuristic [of full_read idle_env 0 0 4 0 socket_example "replicate 12 full_read"]
    recv_repeat_heuristic [of "full_read\<lparr>len := LIBUS_RECV_BUFFER_LENGTH - 24 * 1024 - 1\<rparr>"
      idle_env 0 0 4 0 socket_example "[]"]
    k l d exact
  show ?thesis
    by (simp add: socket_example_4 full_read_def LIBUS_RECV_BUFFER_LENGTH_def)
qed

text \<open>
  Claim C6 as stated fails: with the error flag set and 3 ready polls (more than 2), the
  loop does not stop after 10 repeats: 12 full reads are all received (13 receives with
  the one that would block).
\<close>

theorem recv_repeat_cap_counterexample:
  "receives (snd (us_internal_dispatch_ready_poll idle_env
       (readable_error 4 (replicate 12 full_read)) socket_example)) = 13
   \<and> 2 < num_ready_polls socket_example"
proof -
  let ?rs = "replicate 12 full_read"
  let ?ev = "\<lparr>ev_readable = True, ev_writable = False\<rparr>"
  have e: "(1::int) \<noteq> 0" by simp
  have "(0::nat) \<le> 10" by simp
  note loop = recv_loop_error_flag [OF e socket_example_4(1,2) this, of 0 12]
  obtain tr where r: "recv_loop idle_env 1 0 4 0 ?rs socket_example = (FALL (Some 4) 0, socket_example, tr)"
    and tr: "receives tr = 13"
    using loop by (cases "recv_loop idle_env 1 0 4 0 ?rs socket_example") auto
  have adm: "low_prio_admission idle_env 4 socket_example = (True, socket_example, [])"
    by (simp add: low_prio_admission_def idle_env_def idle_callbacks_def)
  have "dispatch_socket idle_env 4 1 0 ?ev ?rs socket_example
        = (us_socket_close idle_env (Some 4) (ERROR_FLAG 1) socket_example,
           tr @ [SOCKET_CLOSE (Some 4) (ERROR_FLAG 1)])"
    by (simp add: dispatch_socket_def writable_phase_def readable_phase_def adm r eof_phase_def
        error_phase_def)
  then show ?thesis
    by (simp add: us_internal_dispatch_ready_poll_def readable_error_def socket_example_4 tr)
qed

section \<open>Properties of an iteration: the shared budget\<close>

lemma budget_admissions_simps [simp]:
  "budget_admissions [] = 0"
  "budget_admissions (ev # tr) = (if is_budget_admission ev then 1 else 0) + budget_admissions tr"
  "budget_admissions (a @ b) = budget_admissions a + budget_admissions b"
  by (simp_all add: budget_admissions_def)

lemma budget_step_refl [simp]: "budget_step st st []"
  by (simp add: budget_step_def)

lemma budget_step_trans:
  "budget_step a b t1 \<Longrightarrow> budget_step b c t2 \<Longrightarrow> budget_step a c (t1 @ t2)"
  by (auto simp: budget_step_def)

lemma budget_step_kept:
  "low_prio_budget st' = low_prio_budget st \<Longrightarrow> budget_admissions tr = 0 \<Longrightarrow> budget_step st st' tr"
  by (simp add: budget_step_def)

lemma env_keeps_budgetD:
  assumes "env_keeps_budget e"
  shows "low_prio_budget (on_open (cbs e c) s st) = low_prio_budget st"
    and "on_writable (cbs e c) s st = (r, st') \<Longrightarrow> low_prio_budget st' = low_prio_budget st"
    and "on_data (cbs e c) s n st = (r, st') \<Longrightarrow> low_prio_budget st' = low_prio_budget st"
    and "on_fd (cbs e c) s n st = (r, st') \<Longrightarrow> low_prio_budget st' = low_prio_budget st"
    and "on_end (cbs e c) s st = (r, st') \<Longrightarrow> low_prio_budget st' = low_prio_budget st"
    and "low_prio_budget (us_socket_close e so code st) = low_prio_budget st"
    and "low_prio_budget (us_internal_socket_after_resolve e s st) = low_prio_budget st"
    and "low_prio_budget (us_internal_socket_after_open e s b st) = low_prio_budget st"
    and "low_prio_budget (internal_cb e s st) = low_prio_budget st"
    and "low_prio_budget (udp_on_data e s n st) = low_prio_budget st"
    and "low_prio_budget (udp_on_drain e s st) = low_prio_budget st"
    and "low_prio_budget (us_udp_socket_close e s st) = low_prio_budget st"
    and "low_prio_budget (pre_cb e st) = low_prio_budget st"
proof -
  note k = assms [unfolded env_keeps_budget_def keeps_budget_def, rule_format]
  show "low_prio_budget (on_open (cbs e c) s st) = low_prio_budget st" using k by blast
  show "on_writable (cbs e c) s st = (r, st') \<Longrightarrow> low_prio_budget st' = low_prio_budget st"
    using k by (metis snd_conv)
  show "on_data (cbs e c) s n st = (r, st') \<Longrightarrow> low_prio_budget st' = low_prio_budget st"
    using k by (metis snd_conv)
  show "on_fd (cbs e c) s n st = (r, st') \<Longrightarrow> low_prio_budget st' = low_prio_budget st"
    using k by (metis snd_conv)
  show "on_end (cbs e c) s st = (r, st') \<Longrightarrow> low_prio_budget st' = low_prio_budget st"
    using k by (metis snd_conv)
  show "low_prio_budget (us_socket_close e so code st) = low_prio_budget st" using k by blast
  show "low_prio_budget (us_internal_socket_after_resolve e s st) = low_prio_budget st" using k by blast
  show "low_prio_budget (us_internal_socket_after_open e s b st) = low_prio_budget st" using k by blast
  show "low_prio_budget (internal_cb e s st) = low_prio_budget st" using k by blast
  show "low_prio_budget (udp_on_data e s n st) = low_prio_budget st" using k by blast
  show "low_prio_budget (udp_on_drain e s st) = low_prio_budget st" using k by blast
  show "low_prio_budget (us_udp_socket_close e s st) = low_prio_budget st" using k by blast
  show "low_prio_budget (pre_cb e st) = low_prio_budget st" using k by blast
qed

lemma low_prio_budget_poll_change [simp]:
  "low_prio_budget (us_poll_change p ev st) = low_prio_budget st"
  by (simp add: us_poll_change_def)

lemma low_prio_budget_context_ref [simp]:
  "low_prio_budget (us_socket_context_ref c st) = low_prio_budget st"
  by (simp add: us_socket_context_ref_def)

lemma low_prio_budget_defer [simp]:
  "low_prio_budget (low_prio_defer c s st) = low_prio_budget st"
  by (simp add: low_prio_defer_def Let_def split: option.split)

lemma writable_phase_budget:
  assumes "env_keeps_budget e" and "writable_phase e s error eof events st = (c, st', tr)"
  shows "budget_step st st' tr"
proof (cases "ev_writable events \<and> error = 0")
  case False
  with assms(2) show ?thesis by (auto simp: writable_phase_def)
next
  case True
  obtain r st2 where w: "on_writable (cbs e (s_context (sockets st s))) s (st\<lparr>last_write_failed := False\<rparr>) = (r, st2)"
    by (cases "on_writable (cbs e (s_context (sockets st s))) s (st\<lparr>last_write_failed := False\<rparr>)")
  have "low_prio_budget st2 = low_prio_budget st"
    using env_keeps_budgetD(2) [OF assms(1) w] by simp
  with assms(2) True w show ?thesis
    by (auto simp: writable_phase_def Let_def is_budget_admission_def intro!: budget_step_kept
        split: option.splits if_splits)
qed

lemma low_prio_admission_budget:
  assumes "low_prio_admission e s st = (b, st', tr)"
  shows "budget_step st st' tr"
  using assms
  by (auto simp: low_prio_admission_def Let_def budget_step_def is_budget_admission_def
      split: if_splits)

lemma handle_length_budget:
  assumes "env_keeps_budget e" and "handle_length e error eof s cnt r st = (c, st', tr)"
  shows "budget_step st st' tr"
proof -
  obtain x st1 where d: "on_data (cbs e (s_context (sockets st s))) s (len r) st = (x, st1)"
    by (cases "on_data (cbs e (s_context (sockets st s))) s (len r) st")
  note k = env_keeps_budgetD(3) [OF assms(1) d] env_keeps_budgetD(6) [OF assms(1)]
  show ?thesis
    using assms(2) d k
    by (auto simp: handle_length_def Let_def is_budget_admission_def intro!: budget_step_kept
        split: option.splits if_splits)
qed

lemma recv_iteration_budget:
  assumes "env_keeps_budget e" and "recv_iteration e error eof s cnt r st = (c, st', tr)"
  shows "budget_step st st' tr"
proof (cases "if is_ipc (sockets st s) \<and> 0 < len r then scm_rights r else None")
  case None
  then obtain tr' where h: "handle_length e error eof s cnt r st = (c, st', tr')"
    and tr: "tr = BSD_RECV s (len r) # tr'"
    using assms(2) by (auto simp: recv_iteration_def split: prod.splits)
  from handle_length_budget [OF assms(1) h] show ?thesis
    by (simp add: tr budget_step_def is_budget_admission_def)
next
  case (Some fd)
  obtain y st0 where f: "on_fd (cbs e (s_context (sockets st s))) s fd st = (y, st0)"
    by (cases "on_fd (cbs e (s_context (sockets st s))) s fd st")
  have k: "low_prio_budget st0 = low_prio_budget st"
    using env_keeps_budgetD(4) [OF assms(1) f] .
  show ?thesis
  proof (cases y)
    case None
    with assms(2) Some f k show ?thesis
      by (auto simp: recv_iteration_def is_budget_admission_def intro!: budget_step_kept)
  next
    case y: (Some x)
    show ?thesis
    proof (cases "is_closed (sockets st0 x)")
      case True
      with assms(2) Some f k y show ?thesis
        by (auto simp: recv_iteration_def is_budget_admission_def intro!: budget_step_kept)
    next
      case False
      then obtain tr' where h: "handle_length e error eof x cnt r st0 = (c, st', tr')"
        and tr: "tr = [BSD_RECV s (len r), ON_FD s fd] @ tr'"
        using assms(2) Some f y by (auto simp: recv_iteration_def split: prod.splits)
      from handle_length_budget [OF assms(1) h] k show ?thesis
        by (simp add: tr budget_step_def is_budget_admission_def)
    qed
  qed
qed

lemma recv_loop_budget:
  "env_keeps_budget e \<Longrightarrow> recv_loop e error eof s cnt rs st = (c, st', tr) \<Longrightarrow> budget_step st st' tr"
proof (induction rs arbitrary: s cnt st c st' tr)
  case Nil
  then show ?case
    by (auto simp: is_budget_admission_def intro!: budget_step_kept)
next
  case (Cons r rs)
  obtain i st1 tr1 where it: "recv_iteration e error eof s cnt r st = (i, st1, tr1)"
    by (cases "recv_iteration e error eof s cnt r st")
  note b1 = recv_iteration_budget [OF Cons.prems(1) it]
  show ?case
  proof (cases i)
    case (CONTINUE x cnt')
    obtain c2 st2 tr2 where rec: "recv_loop e error eof x cnt' rs st1 = (c2, st2, tr2)"
      by (cases "recv_loop e error eof x cnt' rs st1")
    from Cons.prems(2) it CONTINUE rec have "st' = st2" "tr = tr1 @ tr2" by simp_all
    with budget_step_trans [OF b1 Cons.IH [OF Cons.prems(1) rec]] show ?thesis by simp
  next
    case (BREAK s' eof')
    with Cons.prems(2) it b1 show ?thesis by simp
  next
    case RETURN
    with Cons.prems(2) it b1 show ?thesis by simp
  qed
qed

lemma readable_phase_budget:
  assumes "env_keeps_budget e" and "readable_phase e s error eof events rs st = (c, st', tr)"
  shows "budget_step st st' tr"
proof (cases "ev_readable events")
  case False
  with assms(2) show ?thesis by (auto simp: readable_phase_def)
next
  case True
  obtain b st1 tr1 where adm: "low_prio_admission e s st = (b, st1, tr1)"
    by (cases "low_prio_admission e s st")
  note b1 = low_prio_admission_budget [OF adm]
  show ?thesis
  proof (cases b)
    case False
    with assms(2) True adm b1 show ?thesis by (simp add: readable_phase_def)
  next
    case b: True
    obtain c2 st2 tr2 where rec: "recv_loop e error eof s 0 rs st1 = (c2, st2, tr2)"
      by (cases "recv_loop e error eof s 0 rs st1")
    from assms(2) True adm b rec have "st' = st2" "tr = tr1 @ tr2"
      by (simp_all add: readable_phase_def)
    with budget_step_trans [OF b1 recv_loop_budget [OF assms(1) rec]] show ?thesis by simp
  qed
qed

lemma eof_phase_budget:
  assumes "env_keeps_budget e" and "eof_phase e so eof st = (c, st', tr)"
  shows "budget_step st st' tr"
proof (cases so)
  case None
  with assms(2) show ?thesis by (auto simp: eof_phase_def)
next
  case (Some s)
  obtain x st1 where e1: "on_end (cbs e (s_context (sockets st s))) s st = (x, st1)"
    by (cases "on_end (cbs e (s_context (sockets st s))) s st")
  let ?stp = "us_poll_change s (and_WRITABLE (p_events (polls st s))) st"
  obtain y st2 where e2: "on_end (cbs e (s_context (sockets ?stp s))) s ?stp = (y, st2)"
    by (cases "on_end (cbs e (s_context (sockets ?stp s))) s ?stp")
  have k: "low_prio_budget st1 = low_prio_budget st" "low_prio_budget st2 = low_prio_budget st"
    using env_keeps_budgetD(5) [OF assms(1) e1] env_keeps_budgetD(5) [OF assms(1) e2] by simp_all
  show ?thesis
    using assms(2) Some e1 e2 k env_keeps_budgetD(6) [OF assms(1)]
    by (auto simp: eof_phase_def Let_def is_budget_admission_def intro!: budget_step_kept
        split: if_splits)
qed

lemma error_phase_budget:
  assumes "env_keeps_budget e" and "error_phase e so error st = (st', tr)"
  shows "budget_step st st' tr"
  using assms(2) env_keeps_budgetD(6) [OF assms(1)]
  by (auto simp: error_phase_def is_budget_admission_def intro!: budget_step_kept
      split: option.splits if_splits)

lemma dispatch_socket_budget:
  assumes "env_keeps_budget e" and "dispatch_socket e p error eof events rs st = (st', tr)"
  shows "budget_step st st' tr"
proof -
  obtain c1 st1 tr1 where w: "writable_phase e p error eof events st = (c1, st1, tr1)"
    by (cases "writable_phase e p error eof events st")
  note b1 = writable_phase_budget [OF assms(1) w]
  show ?thesis
  proof (cases c1)
    case DONE
    with assms(2) w b1 show ?thesis by (simp add: dispatch_socket_def)
  next
    case (FALL so eof1)
    show ?thesis
    proof (cases so)
      case None
      with assms(2) w b1 FALL show ?thesis by (simp add: dispatch_socket_def)
    next
      case (Some s1)
      obtain c2 st2 tr2 where r: "readable_phase e s1 error eof1 events rs st1 = (c2, st2, tr2)"
        by (cases "readable_phase e s1 error eof1 events rs st1")
      note b2 = budget_step_trans [OF b1 readable_phase_budget [OF assms(1) r]]
      show ?thesis
      proof (cases c2)
        case DONE
        with assms(2) w FALL Some r b2 show ?thesis by (simp add: dispatch_socket_def)
      next
        case f2: (FALL s2 eof2)
        obtain c3 st3 tr3 where ep: "eof_phase e s2 eof2 st2 = (c3, st3, tr3)"
          by (cases "eof_phase e s2 eof2 st2")
        note b3 = budget_step_trans [OF b2 eof_phase_budget [OF assms(1) ep]]
        show ?thesis
        proof (cases c3)
          case DONE
          with assms(2) w FALL Some r f2 ep b3 show ?thesis by (simp add: dispatch_socket_def)
        next
          case f3: (FALL s3 eof3)
          obtain st4 tr4 where er: "error_phase e s3 error st3 = (st4, tr4)"
            by (cases "error_phase e s3 error st3")
          note b4 = budget_step_trans [OF b3 error_phase_budget [OF assms(1) er]]
          with assms(2) w FALL Some r f2 ep f3 er show ?thesis by (simp add: dispatch_socket_def)
        qed
      qed
    qed
  qed
qed

lemma accept_socket_budget:
  assumes "env_keeps_budget e"
  shows "low_prio_budget (snd (accept_socket e ls fd st)) = low_prio_budget st"
  by (simp add: accept_socket_def us_create_poll_def Let_def env_keeps_budgetD(1) [OF assms])

lemma accept_loop_budget:
  "env_keeps_budget e \<Longrightarrow> accept_loop e ls fd fds st = (st', tr) \<Longrightarrow> budget_step st st' tr"
proof (induction fds arbitrary: fd st st' tr)
  case Nil
  obtain a st1 where acc: "accept_socket e ls fd st = (a, st1)"
    by (cases "accept_socket e ls fd st")
  have "low_prio_budget st1 = low_prio_budget st"
    using accept_socket_budget [OF Nil.prems(1), of ls fd st] by (simp add: acc)
  with Nil.prems(2) acc show ?case
    by (auto simp: is_budget_admission_def intro!: budget_step_kept split: if_splits)
next
  case (Cons f fds)
  obtain a st1 where acc: "accept_socket e ls fd st = (a, st1)"
    by (cases "accept_socket e ls fd st")
  have k: "low_prio_budget st1 = low_prio_budget st"
    using accept_socket_budget [OF Cons.prems(1), of ls fd st] by (simp add: acc)
  show ?case
  proof (cases "\<not> is_closed (sockets st1 ls) \<and> f \<noteq> LIBUS_SOCKET_ERROR")
    case False
    with Cons.prems(2) acc k show ?thesis
      by (auto simp: is_budget_admission_def intro!: budget_step_kept split: if_splits)
  next
    case True
    obtain st2 tr2 where rec: "accept_loop e ls f fds st1 = (st2, tr2)"
      by (cases "accept_loop e ls f fds st1")
    from Cons.prems(2) acc True rec
    have r: "st' = st2" "tr = ON_OPEN a # BSD_ACCEPT ls f # tr2" by simp_all
    from Cons.IH [OF Cons.prems(1) rec] k show ?thesis
      by (simp add: r budget_step_def is_budget_admission_def)
  qed
qed

lemma dispatch_semi_socket_budget:
  assumes "env_keeps_budget e" and "dispatch_semi_socket e p error eof accepts st = (st', tr)"
  shows "budget_step st st' tr"
proof (cases "eq_WRITABLE (p_events (polls st p))")
  case True
  with assms(2) env_keeps_budgetD(8) [OF assms(1)] show ?thesis
    by (auto simp: dispatch_semi_socket_def is_budget_admission_def intro!: budget_step_kept)
next
  case False
  show ?thesis
  proof (cases accepts)
    case Nil
    with assms(2) False show ?thesis
      by (auto simp: dispatch_semi_socket_def is_budget_admission_def intro!: budget_step_kept)
  next
    case (Cons fd fds)
    show ?thesis
    proof (cases "fd = LIBUS_SOCKET_ERROR")
      case True
      with assms(2) False Cons show ?thesis
        by (auto simp: dispatch_semi_socket_def is_budget_admission_def intro!: budget_step_kept)
    next
      case ne: False
      obtain st1 tr1 where rec: "accept_loop e p fd fds st = (st1, tr1)"
        by (cases "accept_loop e p fd fds st")
      from assms(2) False Cons ne rec have r: "st' = st1" "tr = BSD_ACCEPT p fd # tr1"
        by (simp_all add: dispatch_semi_socket_def)
      from accept_loop_budget [OF assms(1) rec] show ?thesis
        by (simp add: r budget_step_def is_budget_admission_def)
    qed
  qed
qed

lemma dispatch_callback_budget:
  assumes "env_keeps_budget e" and "dispatch_callback e p st = (st', tr)"
  shows "budget_step st st' tr"
  using assms(2) env_keeps_budgetD(9) [OF assms(1)]
  by (auto simp: dispatch_callback_def is_budget_admission_def intro!: budget_step_kept)

lemma udp_recv_loop_budget:
  "env_keeps_budget e \<Longrightarrow> udp_recv_loop e u error rs st = (error', st', tr) \<Longrightarrow>
   budget_step st st' tr"
proof (induction rs arbitrary: st error' st' tr)
  case Nil
  then show ?case
    by (auto simp: is_budget_admission_def intro!: budget_step_kept)
next
  case (Cons r rs)
  obtain npackets blocked where r: "r = (npackets, blocked)" by (cases r)
  let ?st1 = "udp_on_data e u npackets st"
  have k: "low_prio_budget ?st1 = low_prio_budget st"
    using env_keeps_budgetD(10) [OF Cons.prems(1)] .
  show ?case
  proof (cases "0 < npackets \<and> \<not> udp_closed (udp_sockets ?st1 u)")
    case False
    with Cons.prems(2) r k show ?thesis
      by (auto simp: Let_def is_budget_admission_def intro!: budget_step_kept split: if_splits)
  next
    case True
    obtain e2 st2 tr2 where rec: "udp_recv_loop e u error rs ?st1 = (e2, st2, tr2)"
      by (cases "udp_recv_loop e u error rs ?st1")
    from Cons.prems(2) r True rec
    have eq: "st' = st2" "tr = UDP_RECVMMSG u npackets # UDP_ON_DATA u npackets # tr2"
      by (simp_all add: Let_def)
    from Cons.IH [OF Cons.prems(1) rec] k show ?thesis
      by (simp add: eq budget_step_def is_budget_admission_def)
  qed
qed

lemma dispatch_udp_budget:
  assumes "env_keeps_budget e" and "dispatch_udp e u error events rs st = (st', tr)"
  shows "budget_step st st' tr"
proof (cases "udp_closed (udp_sockets st u)")
  case True
  with assms(2) show ?thesis by (simp add: dispatch_udp_def)
next
  case False
  obtain error1 st1 tr1 where rd:
    "(if ev_readable events then udp_recv_loop e u error rs st else (error, st, [])) = (error1, st1, tr1)"
    by (cases "if ev_readable events then udp_recv_loop e u error rs st else (error, st, [])")
  have b1: "budget_step st st1 tr1"
    using rd udp_recv_loop_budget [OF assms(1)] by (auto split: if_splits)
  obtain go st2 tr2 where wr:
    "(if ev_writable events \<and> error1 = 0 \<and> \<not> udp_closed (udp_sockets st1 u)
      then (let st' = udp_on_drain e u st1
            in if udp_closed (udp_sockets st' u) then (False, st', [UDP_ON_DRAIN u])
               else (True, us_poll_change u (and_READABLE (p_events (polls st' u))) st',
                     [UDP_ON_DRAIN u]))
      else (True, st1, [])) = (go, st2, tr2)"
    by (metis prod_cases3)
  have b2: "budget_step st1 st2 tr2"
    using wr env_keeps_budgetD(11) [OF assms(1)]
    by (auto simp: Let_def is_budget_admission_def intro!: budget_step_kept split: if_splits)
  note b12 = budget_step_trans [OF b1 b2]
  have b3: "budget_step st2 (us_udp_socket_close e u st2) [UDP_CLOSE u]"
    using env_keeps_budgetD(12) [OF assms(1)]
    by (auto simp: is_budget_admission_def intro!: budget_step_kept)
  have "(st', tr) = (st2, tr1 @ tr2) \<or> (st', tr) = (us_udp_socket_close e u st2, (tr1 @ tr2) @ [UDP_CLOSE u])"
    using assms(2) False rd wr by (cases go) (auto simp: dispatch_udp_def split: if_splits)
  then show ?thesis
    using b12 budget_step_trans [OF b12 b3] by auto
qed

lemma dispatch_ready_poll_budget:
  assumes "env_keeps_budget e" and "us_internal_dispatch_ready_poll e rp st = (st', tr)"
  shows "budget_step st st' tr"
  using assms(2) dispatch_callback_budget [OF assms(1)] dispatch_semi_socket_budget [OF assms(1)]
    dispatch_socket_budget [OF assms(1)] dispatch_udp_budget [OF assms(1)]
  by (auto simp: us_internal_dispatch_ready_poll_def split: poll_type.splits)

lemma dispatch_ready_polls_budget:
  "env_keeps_budget e \<Longrightarrow> dispatch_ready_polls e rps st = (st', tr) \<Longrightarrow> budget_step st st' tr"
proof (induction rps arbitrary: st st' tr)
  case Nil
  then show ?case by simp
next
  case (Cons rp rps)
  obtain st1 tr1 where d: "us_internal_dispatch_ready_poll e rp st = (st1, tr1)"
    by (cases "us_internal_dispatch_ready_poll e rp st")
  obtain st2 tr2 where rec: "dispatch_ready_polls e rps st1 = (st2, tr2)"
    by (cases "dispatch_ready_polls e rps st1")
  from Cons.prems(2) d rec have r: "st' = st2" "tr = tr1 @ tr2" by simp_all
  from budget_step_trans [OF dispatch_ready_poll_budget [OF Cons.prems(1) d]
      Cons.IH [OF Cons.prems(1) rec]]
  show ?case by (simp add: r)
qed

lemma delayed_admissions_simps [simp]:
  "delayed_admissions [] = 0"
  "delayed_admissions (ev # tr) = (if is_delayed_admission ev then 1 else 0) + delayed_admissions tr"
  "delayed_admissions (a @ b) = delayed_admissions a + delayed_admissions b"
  by (simp_all add: delayed_admissions_def)

lemma keeps_promoted_refl [simp]: "keeps_promoted st st"
  by (simp add: keeps_promoted_def)

lemma keeps_promoted_trans: "keeps_promoted a b \<Longrightarrow> keeps_promoted b c \<Longrightarrow> keeps_promoted a c"
  by (auto simp: keeps_promoted_def)

lemma keeps_promoted_simps [simp]:
  "keeps_promoted a (us_poll_change p ev st) = keeps_promoted a st"
  "keeps_promoted a (st\<lparr>last_write_failed := b\<rparr>) = keeps_promoted a st"
  "keeps_promoted a (st\<lparr>low_prio_budget := n\<rparr>) = keeps_promoted a st"
  "keeps_promoted a (st\<lparr>num_ready_polls := m\<rparr>) = keeps_promoted a st"
  "keeps_promoted a (st\<lparr>iteration_nr := i\<rparr>) = keeps_promoted a st"
  "keeps_promoted a (st\<lparr>dns_ready_head := h\<rparr>) = keeps_promoted a st"
  by (simp_all add: keeps_promoted_def promoted_sockets_def us_poll_change_def upd_poll_def)

lemma promoted_step_refl [simp]: "promoted_step st st []"
  by (simp add: promoted_step_def)

lemma promoted_step_trans:
  assumes "promoted_step a b t1" and "promoted_step b c t2"
  shows "promoted_step a c (t1 @ t2)"
proof -
  have sub: "keeps_promoted a c"
    using assms by (auto simp: promoted_step_def intro: keeps_promoted_trans)
  have "finite (promoted_sockets a) \<Longrightarrow>
        card (promoted_sockets c) + delayed_admissions (t1 @ t2) \<le> card (promoted_sockets a)"
  proof -
    assume f: "finite (promoted_sockets a)"
    then have "finite (promoted_sockets b)"
      using assms(1) by (auto simp: promoted_step_def keeps_promoted_def intro: finite_subset)
    with f assms show ?thesis by (simp add: promoted_step_def)
  qed
  with sub show ?thesis by (simp add: promoted_step_def)
qed

lemma promoted_step_kept:
  "keeps_promoted st st' \<Longrightarrow> delayed_admissions tr = 0 \<Longrightarrow> promoted_step st st' tr"
  by (simp add: promoted_step_def keeps_promoted_def card_mono)

lemma env_promotes_none_base:
  assumes "env_promotes_none e"
  shows "keeps_promoted st (on_open (cbs e c) s st)"
    and "keeps_promoted st (snd (on_writable (cbs e c) s st))"
    and "keeps_promoted st (snd (on_data (cbs e c) s n st))"
    and "keeps_promoted st (snd (on_fd (cbs e c) s n st))"
    and "keeps_promoted st (snd (on_end (cbs e c) s st))"
    and "keeps_promoted st (us_socket_close e so code st)"
    and "keeps_promoted st (us_internal_socket_after_resolve e s st)"
    and "keeps_promoted st (us_internal_socket_after_open e s b st)"
    and "keeps_promoted st (internal_cb e s st)"
    and "keeps_promoted st (udp_on_data e s n st)"
    and "keeps_promoted st (udp_on_drain e s st)"
    and "keeps_promoted st (us_udp_socket_close e s st)"
    and "keeps_promoted st (pre_cb e st)"
  using assms [unfolded env_promotes_none_def promotes_none_def, rule_format]
  by blast+

lemma env_promotes_noneD:
  assumes "env_promotes_none e"
  shows "keeps_promoted a st \<Longrightarrow> keeps_promoted a (on_open (cbs e c) s st)"
    and "on_writable (cbs e c) s st = (r, st') \<Longrightarrow> keeps_promoted a st \<Longrightarrow> keeps_promoted a st'"
    and "on_data (cbs e c) s n st = (r, st') \<Longrightarrow> keeps_promoted a st \<Longrightarrow> keeps_promoted a st'"
    and "on_fd (cbs e c) s n st = (r, st') \<Longrightarrow> keeps_promoted a st \<Longrightarrow> keeps_promoted a st'"
    and "on_end (cbs e c) s st = (r, st') \<Longrightarrow> keeps_promoted a st \<Longrightarrow> keeps_promoted a st'"
    and "keeps_promoted a st \<Longrightarrow> keeps_promoted a (us_socket_close e so code st)"
    and "keeps_promoted a st \<Longrightarrow> keeps_promoted a (us_internal_socket_after_resolve e s st)"
    and "keeps_promoted a st \<Longrightarrow> keeps_promoted a (us_internal_socket_after_open e s b st)"
    and "keeps_promoted a st \<Longrightarrow> keeps_promoted a (internal_cb e s st)"
    and "keeps_promoted a st \<Longrightarrow> keeps_promoted a (udp_on_data e s n st)"
    and "keeps_promoted a st \<Longrightarrow> keeps_promoted a (udp_on_drain e s st)"
    and "keeps_promoted a st \<Longrightarrow> keeps_promoted a (us_udp_socket_close e s st)"
    and "keeps_promoted a st \<Longrightarrow> keeps_promoted a (pre_cb e st)"
proof -
  note b = env_promotes_none_base [OF assms]
  show "keeps_promoted a st \<Longrightarrow> keeps_promoted a (on_open (cbs e c) s st)"
    by (erule keeps_promoted_trans) (rule b)
  show "on_writable (cbs e c) s st = (r, st') \<Longrightarrow> keeps_promoted a st \<Longrightarrow> keeps_promoted a st'"
    using b(2) [of st c s] by (auto elim: keeps_promoted_trans)
  show "on_data (cbs e c) s n st = (r, st') \<Longrightarrow> keeps_promoted a st \<Longrightarrow> keeps_promoted a st'"
    using b(3) [of st c s n] by (auto elim: keeps_promoted_trans)
  show "on_fd (cbs e c) s n st = (r, st') \<Longrightarrow> keeps_promoted a st \<Longrightarrow> keeps_promoted a st'"
    using b(4) [of st c s n] by (auto elim: keeps_promoted_trans)
  show "on_end (cbs e c) s st = (r, st') \<Longrightarrow> keeps_promoted a st \<Longrightarrow> keeps_promoted a st'"
    using b(5) [of st c s] by (auto elim: keeps_promoted_trans)
  show "keeps_promoted a st \<Longrightarrow> keeps_promoted a (us_socket_close e so code st)"
    by (erule keeps_promoted_trans) (rule b)
  show "keeps_promoted a st \<Longrightarrow> keeps_promoted a (us_internal_socket_after_resolve e s st)"
    by (erule keeps_promoted_trans) (rule b)
  show "keeps_promoted a st \<Longrightarrow> keeps_promoted a (us_internal_socket_after_open e s b st)"
    by (erule keeps_promoted_trans) (rule b)
  show "keeps_promoted a st \<Longrightarrow> keeps_promoted a (internal_cb e s st)"
    by (erule keeps_promoted_trans) (rule b)
  show "keeps_promoted a st \<Longrightarrow> keeps_promoted a (udp_on_data e s n st)"
    by (erule keeps_promoted_trans) (rule b)
  show "keeps_promoted a st \<Longrightarrow> keeps_promoted a (udp_on_drain e s st)"
    by (erule keeps_promoted_trans) (rule b)
  show "keeps_promoted a st \<Longrightarrow> keeps_promoted a (us_udp_socket_close e s st)"
    by (erule keeps_promoted_trans) (rule b)
  show "keeps_promoted a st \<Longrightarrow> keeps_promoted a (pre_cb e st)"
    by (erule keeps_promoted_trans) (rule b)
qed

lemma low_prio_defer_low_prio_state:
  "low_prio_state (sockets (low_prio_defer c s st) x)
   = (if x = s then 1 else low_prio_state (sockets st x))"
proof -
  have u: "\<And>st y. low_prio_state (sockets (us_internal_socket_context_unlink_socket c s st) y)
      = low_prio_state (sockets st y)"
    by (simp add: us_internal_socket_context_unlink_socket_def Let_def upd_socket_def
        split: option.split)
  define st3 where "st3 = us_internal_socket_context_unlink_socket c s
    (us_socket_context_ref c (us_poll_change s (and_WRITABLE (p_events (polls st s))) st))"
  define st4 where "st4 = upd_socket s (\<lambda>x. x\<lparr>s_prev := None\<rparr>) st3"
  define st5 where "st5 = upd_socket s (\<lambda>x. x\<lparr>s_next := low_prio_head st4\<rparr>) st4"
  define st6 where "st6 = (case s_next (sockets st5 s) of None \<Rightarrow> st5
    | Some n \<Rightarrow> upd_socket n (\<lambda>x. x\<lparr>s_prev := Some s\<rparr>) st5)"
  have d: "low_prio_defer c s st = upd_socket s (\<lambda>x. x\<lparr>low_prio_state := 1\<rparr>) (st6\<lparr>low_prio_head := Some s\<rparr>)"
    by (simp only: low_prio_defer_def Let_def st6_def st5_def st4_def st3_def)
  have c3: "\<And>y. low_prio_state (sockets st3 y) = low_prio_state (sockets st y)"
    by (simp add: st3_def u us_socket_context_ref_def us_poll_change_def)
  have c5: "\<And>y. low_prio_state (sockets st5 y) = low_prio_state (sockets st3 y)"
    by (simp add: st5_def st4_def upd_socket_def)
  have c6: "\<And>y. low_prio_state (sockets st6 y) = low_prio_state (sockets st5 y)"
    by (simp add: st6_def upd_socket_def split: option.split)
  show ?thesis
    by (simp add: d upd_socket_def c6 c5 c3)
qed

lemma keeps_promoted_defer [simp]: "keeps_promoted st (low_prio_defer c s st)"
  by (auto simp: keeps_promoted_def promoted_sockets_def low_prio_defer_low_prio_state)

lemma writable_phase_promoted:
  assumes "env_promotes_none e" and "writable_phase e s error eof events st = (c, st', tr)"
  shows "promoted_step st st' tr"
proof (cases "ev_writable events \<and> error = 0")
  case False
  with assms(2) show ?thesis by (auto simp: writable_phase_def)
next
  case True
  obtain r st2 where w: "on_writable (cbs e (s_context (sockets st s))) s (st\<lparr>last_write_failed := False\<rparr>) = (r, st2)"
    by (cases "on_writable (cbs e (s_context (sockets st s))) s (st\<lparr>last_write_failed := False\<rparr>)")
  have "keeps_promoted st st2"
    using env_promotes_noneD(2) [OF assms(1) w, of st] by simp
  with assms(2) True w show ?thesis
    by (auto simp: writable_phase_def Let_def is_delayed_admission_def intro!: promoted_step_kept
        split: option.splits if_splits)
qed

lemma low_prio_admission_promoted:
  assumes "low_prio_admission e s st = (b, st', tr)"
  shows "promoted_step st st' tr"
proof (cases "is_low_prio (cbs e (s_context (sockets st s))) s st \<and> low_prio_state (sockets st s) = 2")
  case True
  then have st': "st' = upd_socket s (\<lambda>x. x\<lparr>low_prio_state := 0\<rparr>) st"
    and tr: "tr = [LOW_PRIO_ADMIT_DELAYED s]"
    using assms by (simp_all add: low_prio_admission_def)
  have eq: "promoted_sockets st' = promoted_sockets st - {s}"
    by (auto simp: st' promoted_sockets_def upd_socket_def)
  have s: "s \<in> promoted_sockets st"
    using True by (simp add: promoted_sockets_def)
  have "finite (promoted_sockets st) \<Longrightarrow>
        card (promoted_sockets st - {s}) + 1 \<le> card (promoted_sockets st)"
    using s card_Suc_Diff1 [of "promoted_sockets st" s] by simp
  then show ?thesis
    by (auto simp: promoted_step_def keeps_promoted_def eq tr is_delayed_admission_def)
next
  case False
  with assms show ?thesis
    by (auto simp: low_prio_admission_def Let_def is_delayed_admission_def
        intro!: promoted_step_kept split: if_splits)
qed

lemma handle_length_promoted:
  assumes "env_promotes_none e" and "handle_length e error eof s cnt r st = (c, st', tr)"
  shows "promoted_step st st' tr"
proof -
  obtain x st1 where d: "on_data (cbs e (s_context (sockets st s))) s (len r) st = (x, st1)"
    by (cases "on_data (cbs e (s_context (sockets st s))) s (len r) st")
  have k: "keeps_promoted st st1"
    using env_promotes_noneD(3) [OF assms(1) d, of st] by simp
  show ?thesis
    using assms(2) d k
    by (auto simp: handle_length_def Let_def is_delayed_admission_def
        env_promotes_noneD(6) [OF assms(1)] intro!: promoted_step_kept
        split: option.splits if_splits)
qed

lemma recv_iteration_promoted:
  assumes "env_promotes_none e" and "recv_iteration e error eof s cnt r st = (c, st', tr)"
  shows "promoted_step st st' tr"
proof (cases "if is_ipc (sockets st s) \<and> 0 < len r then scm_rights r else None")
  case None
  then obtain tr' where h: "handle_length e error eof s cnt r st = (c, st', tr')"
    and tr: "tr = BSD_RECV s (len r) # tr'"
    using assms(2) by (auto simp: recv_iteration_def split: prod.splits)
  from handle_length_promoted [OF assms(1) h] show ?thesis
    by (simp add: tr promoted_step_def is_delayed_admission_def)
next
  case (Some fd)
  obtain y st0 where f: "on_fd (cbs e (s_context (sockets st s))) s fd st = (y, st0)"
    by (cases "on_fd (cbs e (s_context (sockets st s))) s fd st")
  have k: "keeps_promoted st st0"
    using env_promotes_noneD(4) [OF assms(1) f, of st] by simp
  then have k0: "promoted_step st st0 []"
    by (intro promoted_step_kept) simp_all
  show ?thesis
  proof (cases y)
    case None
    with assms(2) Some f k show ?thesis
      by (auto simp: recv_iteration_def is_delayed_admission_def intro!: promoted_step_kept)
  next
    case y: (Some x)
    show ?thesis
    proof (cases "is_closed (sockets st0 x)")
      case True
      with assms(2) Some f k y show ?thesis
        by (auto simp: recv_iteration_def is_delayed_admission_def intro!: promoted_step_kept)
    next
      case False
      then obtain tr' where h: "handle_length e error eof x cnt r st0 = (c, st', tr')"
        and tr: "tr = [BSD_RECV s (len r), ON_FD s fd] @ tr'"
        using assms(2) Some f y by (auto simp: recv_iteration_def split: prod.splits)
      from promoted_step_trans [OF k0 handle_length_promoted [OF assms(1) h]] show ?thesis
        by (simp add: tr promoted_step_def is_delayed_admission_def)
    qed
  qed
qed

lemma recv_loop_promoted:
  "env_promotes_none e \<Longrightarrow> recv_loop e error eof s cnt rs st = (c, st', tr) \<Longrightarrow> promoted_step st st' tr"
proof (induction rs arbitrary: s cnt st c st' tr)
  case Nil
  then show ?case
    by (auto simp: is_delayed_admission_def intro!: promoted_step_kept)
next
  case (Cons r rs)
  obtain i st1 tr1 where it: "recv_iteration e error eof s cnt r st = (i, st1, tr1)"
    by (cases "recv_iteration e error eof s cnt r st")
  note b1 = recv_iteration_promoted [OF Cons.prems(1) it]
  show ?case
  proof (cases i)
    case (CONTINUE x cnt')
    obtain c2 st2 tr2 where rec: "recv_loop e error eof x cnt' rs st1 = (c2, st2, tr2)"
      by (cases "recv_loop e error eof x cnt' rs st1")
    from Cons.prems(2) it CONTINUE rec have "st' = st2" "tr = tr1 @ tr2" by simp_all
    with promoted_step_trans [OF b1 Cons.IH [OF Cons.prems(1) rec]] show ?thesis by simp
  next
    case (BREAK s' eof')
    with Cons.prems(2) it b1 show ?thesis by simp
  next
    case RETURN
    with Cons.prems(2) it b1 show ?thesis by simp
  qed
qed

lemma readable_phase_promoted:
  assumes "env_promotes_none e" and "readable_phase e s error eof events rs st = (c, st', tr)"
  shows "promoted_step st st' tr"
proof (cases "ev_readable events")
  case False
  with assms(2) show ?thesis by (auto simp: readable_phase_def)
next
  case True
  obtain b st1 tr1 where adm: "low_prio_admission e s st = (b, st1, tr1)"
    by (cases "low_prio_admission e s st")
  note b1 = low_prio_admission_promoted [OF adm]
  show ?thesis
  proof (cases b)
    case False
    with assms(2) True adm b1 show ?thesis by (simp add: readable_phase_def)
  next
    case b: True
    obtain c2 st2 tr2 where rec: "recv_loop e error eof s 0 rs st1 = (c2, st2, tr2)"
      by (cases "recv_loop e error eof s 0 rs st1")
    from assms(2) True adm b rec have "st' = st2" "tr = tr1 @ tr2"
      by (simp_all add: readable_phase_def)
    with promoted_step_trans [OF b1 recv_loop_promoted [OF assms(1) rec]] show ?thesis by simp
  qed
qed

lemma eof_phase_promoted:
  assumes "env_promotes_none e" and "eof_phase e so eof st = (c, st', tr)"
  shows "promoted_step st st' tr"
proof (cases so)
  case None
  with assms(2) show ?thesis by (auto simp: eof_phase_def)
next
  case (Some s)
  obtain x st1 where e1: "on_end (cbs e (s_context (sockets st s))) s st = (x, st1)"
    by (cases "on_end (cbs e (s_context (sockets st s))) s st")
  let ?stp = "us_poll_change s (and_WRITABLE (p_events (polls st s))) st"
  obtain y st2 where e2: "on_end (cbs e (s_context (sockets ?stp s))) s ?stp = (y, st2)"
    by (cases "on_end (cbs e (s_context (sockets ?stp s))) s ?stp")
  have k: "keeps_promoted st st1" "keeps_promoted st st2"
    using env_promotes_noneD(5) [OF assms(1) e1, of st] env_promotes_noneD(5) [OF assms(1) e2, of st]
    by simp_all
  show ?thesis
    using assms(2) Some e1 e2 k
    by (auto simp: eof_phase_def Let_def is_delayed_admission_def env_promotes_noneD(6) [OF assms(1)]
        intro!: promoted_step_kept split: if_splits)
qed

lemma error_phase_promoted:
  assumes "env_promotes_none e" and "error_phase e so error st = (st', tr)"
  shows "promoted_step st st' tr"
  using assms(2)
  by (auto simp: error_phase_def is_delayed_admission_def env_promotes_noneD(6) [OF assms(1)]
      intro!: promoted_step_kept split: option.splits if_splits)

lemma dispatch_socket_promoted:
  assumes "env_promotes_none e" and "dispatch_socket e p error eof events rs st = (st', tr)"
  shows "promoted_step st st' tr"
proof -
  obtain c1 st1 tr1 where w: "writable_phase e p error eof events st = (c1, st1, tr1)"
    by (cases "writable_phase e p error eof events st")
  note b1 = writable_phase_promoted [OF assms(1) w]
  show ?thesis
  proof (cases c1)
    case DONE
    with assms(2) w b1 show ?thesis by (simp add: dispatch_socket_def)
  next
    case (FALL so eof1)
    show ?thesis
    proof (cases so)
      case None
      with assms(2) w b1 FALL show ?thesis by (simp add: dispatch_socket_def)
    next
      case (Some s1)
      obtain c2 st2 tr2 where r: "readable_phase e s1 error eof1 events rs st1 = (c2, st2, tr2)"
        by (cases "readable_phase e s1 error eof1 events rs st1")
      note b2 = promoted_step_trans [OF b1 readable_phase_promoted [OF assms(1) r]]
      show ?thesis
      proof (cases c2)
        case DONE
        with assms(2) w FALL Some r b2 show ?thesis by (simp add: dispatch_socket_def)
      next
        case f2: (FALL s2 eof2)
        obtain c3 st3 tr3 where ep: "eof_phase e s2 eof2 st2 = (c3, st3, tr3)"
          by (cases "eof_phase e s2 eof2 st2")
        note b3 = promoted_step_trans [OF b2 eof_phase_promoted [OF assms(1) ep]]
        show ?thesis
        proof (cases c3)
          case DONE
          with assms(2) w FALL Some r f2 ep b3 show ?thesis by (simp add: dispatch_socket_def)
        next
          case f3: (FALL s3 eof3)
          obtain st4 tr4 where er: "error_phase e s3 error st3 = (st4, tr4)"
            by (cases "error_phase e s3 error st3")
          note b4 = promoted_step_trans [OF b3 error_phase_promoted [OF assms(1) er]]
          with assms(2) w FALL Some r f2 ep f3 er show ?thesis by (simp add: dispatch_socket_def)
        qed
      qed
    qed
  qed
qed

lemma low_prio_state_link [simp]:
  "low_prio_state (sockets (us_internal_socket_context_link_socket c s st) x)
   = low_prio_state (sockets st x)"
  by (simp add: us_internal_socket_context_link_socket_def Let_def upd_socket_def upd_context_def
      split: option.split)

lemma accept_socket_promoted:
  assumes "env_promotes_none e"
  shows "keeps_promoted st (snd (accept_socket e ls fd st))"
proof -
  define st2 where "st2 = upd_poll (heap_top st)
       (\<lambda>x. \<lparr>p_fd = fd, p_type = POLL_TYPE_SOCKET,
              p_events = \<lparr>ev_readable = True, ev_writable = False\<rparr>\<rparr>) (st\<lparr>heap_top := Suc (heap_top st)\<rparr>)"
  define st3 where "st3 = upd_socket (heap_top st)
       (\<lambda>x. x\<lparr>s_context := s_context (sockets st2 ls), connect_state := None, timeout := 255,
              long_timeout := 255, low_prio_state := 0,
              allow_half_open := allow_half_open (sockets st2 ls),
              is_paused := False, is_ipc := False\<rparr>) st2"
  define st4 where "st4 = us_internal_socket_context_link_socket (s_context (sockets st3 ls)) (heap_top st) st3"
  have a: "snd (accept_socket e ls fd st) = on_open (cbs e (s_context (sockets st4 ls))) (heap_top st) st4"
    by (simp only: accept_socket_def us_create_poll_def Let_def case_prod_conv snd_conv
        st4_def st3_def st2_def)
  have "\<And>x. low_prio_state (sockets st4 x) = 2 \<Longrightarrow> low_prio_state (sockets st x) = 2"
    by (simp add: st4_def st3_def st2_def upd_socket_def split: if_splits)
  then have "keeps_promoted st st4"
    by (auto simp: keeps_promoted_def promoted_sockets_def)
  then show ?thesis
    unfolding a by (rule env_promotes_noneD(1) [OF assms])
qed

lemma accept_loop_promoted:
  "env_promotes_none e \<Longrightarrow> accept_loop e ls fd fds st = (st', tr) \<Longrightarrow> promoted_step st st' tr"
proof (induction fds arbitrary: fd st st' tr)
  case Nil
  obtain a st1 where acc: "accept_socket e ls fd st = (a, st1)"
    by (cases "accept_socket e ls fd st")
  have "keeps_promoted st st1"
    using accept_socket_promoted [OF Nil.prems(1), of st ls fd] by (simp add: acc)
  with Nil.prems(2) acc show ?case
    by (auto simp: is_delayed_admission_def intro!: promoted_step_kept split: if_splits)
next
  case (Cons f fds)
  obtain a st1 where acc: "accept_socket e ls fd st = (a, st1)"
    by (cases "accept_socket e ls fd st")
  have k: "keeps_promoted st st1"
    using accept_socket_promoted [OF Cons.prems(1), of st ls fd] by (simp add: acc)
  then have k0: "promoted_step st st1 []"
    by (intro promoted_step_kept) simp_all
  show ?case
  proof (cases "\<not> is_closed (sockets st1 ls) \<and> f \<noteq> LIBUS_SOCKET_ERROR")
    case False
    with Cons.prems(2) acc k show ?thesis
      by (auto simp: is_delayed_admission_def intro!: promoted_step_kept split: if_splits)
  next
    case True
    obtain st2 tr2 where rec: "accept_loop e ls f fds st1 = (st2, tr2)"
      by (cases "accept_loop e ls f fds st1")
    from Cons.prems(2) acc True rec
    have r: "st' = st2" "tr = ON_OPEN a # BSD_ACCEPT ls f # tr2" by simp_all
    from promoted_step_trans [OF k0 Cons.IH [OF Cons.prems(1) rec]] show ?thesis
      by (simp add: r promoted_step_def is_delayed_admission_def)
  qed
qed

lemma dispatch_semi_socket_promoted:
  assumes "env_promotes_none e" and "dispatch_semi_socket e p error eof accepts st = (st', tr)"
  shows "promoted_step st st' tr"
proof (cases "eq_WRITABLE (p_events (polls st p))")
  case True
  with assms(2) show ?thesis
    by (auto simp: dispatch_semi_socket_def is_delayed_admission_def
        env_promotes_noneD(8) [OF assms(1)] intro!: promoted_step_kept)
next
  case False
  show ?thesis
  proof (cases accepts)
    case Nil
    with assms(2) False show ?thesis
      by (auto simp: dispatch_semi_socket_def is_delayed_admission_def intro!: promoted_step_kept)
  next
    case (Cons fd fds)
    show ?thesis
    proof (cases "fd = LIBUS_SOCKET_ERROR")
      case True
      with assms(2) False Cons show ?thesis
        by (auto simp: dispatch_semi_socket_def is_delayed_admission_def intro!: promoted_step_kept)
    next
      case ne: False
      obtain st1 tr1 where rec: "accept_loop e p fd fds st = (st1, tr1)"
        by (cases "accept_loop e p fd fds st")
      from assms(2) False Cons ne rec have r: "st' = st1" "tr = BSD_ACCEPT p fd # tr1"
        by (simp_all add: dispatch_semi_socket_def)
      from accept_loop_promoted [OF assms(1) rec] show ?thesis
        by (simp add: r promoted_step_def is_delayed_admission_def)
    qed
  qed
qed

lemma dispatch_callback_promoted:
  assumes "env_promotes_none e" and "dispatch_callback e p st = (st', tr)"
  shows "promoted_step st st' tr"
  using assms(2)
  by (auto simp: dispatch_callback_def is_delayed_admission_def env_promotes_noneD(9) [OF assms(1)]
      intro!: promoted_step_kept)

lemma udp_recv_loop_promoted:
  "env_promotes_none e \<Longrightarrow> udp_recv_loop e u error rs st = (error', st', tr) \<Longrightarrow>
   promoted_step st st' tr"
proof (induction rs arbitrary: st error' st' tr)
  case Nil
  then show ?case
    by (auto simp: is_delayed_admission_def intro!: promoted_step_kept)
next
  case (Cons r rs)
  obtain npackets blocked where r: "r = (npackets, blocked)" by (cases r)
  let ?st1 = "udp_on_data e u npackets st"
  have k: "keeps_promoted st ?st1"
    using env_promotes_noneD(10) [OF Cons.prems(1), of st st] by simp
  then have k0: "promoted_step st ?st1 []"
    by (intro promoted_step_kept) simp_all
  show ?case
  proof (cases "0 < npackets \<and> \<not> udp_closed (udp_sockets ?st1 u)")
    case False
    with Cons.prems(2) r k show ?thesis
      by (auto simp: Let_def is_delayed_admission_def intro!: promoted_step_kept split: if_splits)
  next
    case True
    obtain e2 st2 tr2 where rec: "udp_recv_loop e u error rs ?st1 = (e2, st2, tr2)"
      by (cases "udp_recv_loop e u error rs ?st1")
    from Cons.prems(2) r True rec
    have eq: "st' = st2" "tr = UDP_RECVMMSG u npackets # UDP_ON_DATA u npackets # tr2"
      by (simp_all add: Let_def)
    from promoted_step_trans [OF k0 Cons.IH [OF Cons.prems(1) rec]] show ?thesis
      by (simp add: eq promoted_step_def is_delayed_admission_def)
  qed
qed

lemma dispatch_udp_promoted:
  assumes "env_promotes_none e" and "dispatch_udp e u error events rs st = (st', tr)"
  shows "promoted_step st st' tr"
proof (cases "udp_closed (udp_sockets st u)")
  case True
  with assms(2) show ?thesis by (simp add: dispatch_udp_def)
next
  case False
  obtain error1 st1 tr1 where rd:
    "(if ev_readable events then udp_recv_loop e u error rs st else (error, st, [])) = (error1, st1, tr1)"
    by (cases "if ev_readable events then udp_recv_loop e u error rs st else (error, st, [])")
  have b1: "promoted_step st st1 tr1"
    using rd udp_recv_loop_promoted [OF assms(1)] by (auto split: if_splits)
  obtain go st2 tr2 where wr:
    "(if ev_writable events \<and> error1 = 0 \<and> \<not> udp_closed (udp_sockets st1 u)
      then (let st' = udp_on_drain e u st1
            in if udp_closed (udp_sockets st' u) then (False, st', [UDP_ON_DRAIN u])
               else (True, us_poll_change u (and_READABLE (p_events (polls st' u))) st',
                     [UDP_ON_DRAIN u]))
      else (True, st1, [])) = (go, st2, tr2)"
    by (metis prod_cases3)
  have b2: "promoted_step st1 st2 tr2"
    using wr
    by (auto simp: Let_def is_delayed_admission_def env_promotes_noneD(11) [OF assms(1)]
        intro!: promoted_step_kept split: if_splits)
  note b12 = promoted_step_trans [OF b1 b2]
  have b3: "promoted_step st2 (us_udp_socket_close e u st2) [UDP_CLOSE u]"
    by (auto simp: is_delayed_admission_def env_promotes_noneD(12) [OF assms(1)]
        intro!: promoted_step_kept)
  have "(st', tr) = (st2, tr1 @ tr2) \<or> (st', tr) = (us_udp_socket_close e u st2, (tr1 @ tr2) @ [UDP_CLOSE u])"
    using assms(2) False rd wr by (cases go) (auto simp: dispatch_udp_def split: if_splits)
  then show ?thesis
    using b12 promoted_step_trans [OF b12 b3] by auto
qed

lemma dispatch_ready_poll_promoted:
  assumes "env_promotes_none e" and "us_internal_dispatch_ready_poll e rp st = (st', tr)"
  shows "promoted_step st st' tr"
  using assms(2) dispatch_callback_promoted [OF assms(1)] dispatch_semi_socket_promoted [OF assms(1)]
    dispatch_socket_promoted [OF assms(1)] dispatch_udp_promoted [OF assms(1)]
  by (auto simp: us_internal_dispatch_ready_poll_def split: poll_type.splits)

lemma dispatch_ready_polls_promoted:
  "env_promotes_none e \<Longrightarrow> dispatch_ready_polls e rps st = (st', tr) \<Longrightarrow> promoted_step st st' tr"
proof (induction rps arbitrary: st st' tr)
  case Nil
  then show ?case by simp
next
  case (Cons rp rps)
  obtain st1 tr1 where d: "us_internal_dispatch_ready_poll e rp st = (st1, tr1)"
    by (cases "us_internal_dispatch_ready_poll e rp st")
  obtain st2 tr2 where rec: "dispatch_ready_polls e rps st1 = (st2, tr2)"
    by (cases "dispatch_ready_polls e rps st1")
  from Cons.prems(2) d rec have r: "st' = st2" "tr = tr1 @ tr2" by simp_all
  from promoted_step_trans [OF dispatch_ready_poll_promoted [OF Cons.prems(1) d]
      Cons.IH [OF Cons.prems(1) rec]]
  show ?case by (simp add: r)
qed

lemma drain_promoted:
  "env_promotes_none e \<Longrightarrow> keeps_promoted a st \<Longrightarrow>
   us_internal_drain_pending_dns_resolve fuel e s st = Some (st', tr) \<Longrightarrow> keeps_promoted a st'"
proof (induction fuel arbitrary: s st st' tr)
  case 0
  then show ?case by (cases s) simp_all
next
  case (Suc fuel)
  show ?case
  proof (cases s)
    case None
    with Suc.prems show ?thesis by simp
  next
    case (Some x)
    let ?st1 = "us_internal_socket_after_resolve e x st"
    have k: "keeps_promoted a ?st1"
      using Suc.prems(2) by (rule env_promotes_noneD(7) [OF Suc.prems(1)])
    obtain tr' where "us_internal_drain_pending_dns_resolve fuel e (c_next (connecting st x)) ?st1
        = Some (st', tr')"
      using Suc.prems(3) Some by (auto simp: Let_def split: option.splits)
    from Suc.IH [OF Suc.prems(1) k this] show ?thesis .
  qed
qed

lemma promoted_sockets_promote:
  "promoted_sockets (low_prio_promote s st) \<subseteq> insert s (promoted_sockets st)"
  using low_prio_state_promote [of _ s st] by (auto simp: promoted_sockets_def)

lemma low_prio_loop_promoted:
  "finite (promoted_sockets st) \<Longrightarrow>
   finite (promoted_sockets (fst (low_prio_loop st)))
   \<and> card (promoted_sockets (fst (low_prio_loop st)))
       \<le> card (promoted_sockets st) + length (snd (low_prio_loop st))"
proof (induction st rule: low_prio_loop.induct)
  case (1 st)
  show ?case
  proof (cases "low_prio_head st")
    case None
    with "1.prems" show ?thesis by (simp add: low_prio_loop_empty)
  next
    case (Some s)
    show ?thesis
    proof (cases "0 < low_prio_budget st")
      case True
      have f: "finite (promoted_sockets (low_prio_promote s st))"
        using promoted_sockets_promote [of s st] "1.prems" by (auto intro: finite_subset)
      have "card (promoted_sockets (low_prio_promote s st)) \<le> card (insert s (promoted_sockets st))"
        using promoted_sockets_promote [of s st] "1.prems" by (intro card_mono) simp_all
      also have "\<dots> \<le> Suc (card (promoted_sockets st))"
        using "1.prems" by (simp add: card_insert_if)
      finally have c: "card (promoted_sockets (low_prio_promote s st)) \<le> Suc (card (promoted_sockets st))" .
      from "1.IH" [OF Some True f] c Some True show ?thesis
        by (simp add: low_prio_loop_step)
    next
      case False
      with Some "1.prems" show ?thesis by (simp add: low_prio_loop_spent)
    qed
  qed
qed

lemma loop_pre_promoted:
  assumes "env_promotes_none e"
    and "finite (promoted_sockets st)"
    and "us_internal_loop_pre fuel e st = Some (st', tr)"
  shows "finite (promoted_sockets st')
         \<and> card (promoted_sockets st') \<le> card (promoted_sockets st) + promotions tr"
proof -
  let ?st1 = "st\<lparr>iteration_nr := iteration_nr st + 1\<rparr>"
  obtain r st2 tr1 where dns: "us_internal_handle_dns_results fuel e ?st1 = Some (r, st2, tr1)"
    using assms(3) by (auto simp: us_internal_loop_pre_def Let_def split: option.splits)
  have tr1: "promotions tr1 = 0"
    using dns drain_promotions
    by (auto simp: us_internal_handle_dns_results_def Let_def split: option.splits)
  have k1: "keeps_promoted st (?st1\<lparr>dns_ready_head := None\<rparr>)" by simp
  obtain tr0 where "us_internal_drain_pending_dns_resolve fuel e (dns_ready_head ?st1)
      (?st1\<lparr>dns_ready_head := None\<rparr>) = Some (st2, tr0)"
    using dns by (auto simp: us_internal_handle_dns_results_def Let_def split: option.splits)
  from drain_promoted [OF assms(1) k1 this] have k2: "keeps_promoted st st2" .
  then have f2: "finite (promoted_sockets st2)" and c2: "card (promoted_sockets st2) \<le> card (promoted_sockets st)"
    using assms(2) by (auto simp: keeps_promoted_def intro: finite_subset card_mono)
  let ?h = "us_internal_handle_low_priority_sockets st2"
  have st': "st' = pre_cb e (fst ?h)" and tr: "tr = tr1 @ snd ?h @ [PRE_CB]"
    using assms(3) dns by (auto simp: us_internal_loop_pre_def Let_def split: prod.splits)
  have p: "promotions tr = length (snd ?h)"
    by (simp add: tr tr1 us_internal_handle_low_priority_sockets_def low_prio_loop_promotions)
  have "finite (promoted_sockets (st2\<lparr>low_prio_budget := MAX_LOW_PRIO_SOCKETS_PER_LOOP_ITERATION\<rparr>))"
    using f2 by (simp add: promoted_sockets_def)
  from low_prio_loop_promoted [OF this]
  have f3: "finite (promoted_sockets (fst ?h))"
    and c3: "card (promoted_sockets (fst ?h)) \<le> card (promoted_sockets st2) + length (snd ?h)"
    by (simp_all add: us_internal_handle_low_priority_sockets_def promoted_sockets_def)
  have "keeps_promoted (fst ?h) st'"
    unfolding st' by (rule env_promotes_noneD(13) [OF assms(1)]) simp
  then have "finite (promoted_sockets st')" and "card (promoted_sockets st') \<le> card (promoted_sockets (fst ?h))"
    using f3 by (auto simp: keeps_promoted_def intro: finite_subset card_mono)
  with c3 c2 p show ?thesis by simp
qed

text \<open>
  Claim C10, as the code has it. In one loop iteration (the pre-hook, then the dispatch of
  the ready polls the poller reports), the sockets promoted by the pre-hook and the
  sockets admitted to the receive loop by paying out of \<open>low_prio_budget\<close> are together at
  most 5: the promotion loop and the admission branch decrement the same budget, reset to
  5 once per iteration, and neither lets it go below 0. A promoted socket is admitted
  without paying, in whichever iteration its poll is reported next: so the low-priority
  sockets admitted in the iteration are at most 5 plus the sockets that were in state 2
  when the iteration began. This holds for every list of ready polls of every poll type,
  when the callbacks and library functions leave the budget alone and put no socket into
  state 2.
\<close>

theorem low_prio_admissions_share_budget:
  assumes "env_keeps_budget e"
    and "us_internal_loop_pre fuel e st = Some (st1, tr_pre)"
    and "dispatch_ready_polls e rps (st1\<lparr>num_ready_polls := n\<rparr>) = (st', tr_dispatch)"
  shows "promotions tr_pre + budget_admissions tr_dispatch \<le> 5
         \<and> (env_promotes_none e \<and> finite (promoted_sockets st) \<longrightarrow>
              low_prio_admissions tr_dispatch \<le> 5 + card (promoted_sockets st))"
proof -
  have "\<forall>st. low_prio_budget (pre_cb e st) = low_prio_budget st"
    using env_keeps_budgetD(13) [OF assms(1)] by simp
  from loop_pre_budget_eq [OF this assms(2)]
  have b: "low_prio_budget st1 = 5 - int (promotions tr_pre)" and p: "promotions tr_pre \<le> 5"
    by simp_all
  from dispatch_ready_polls_budget [OF assms(1,3)]
  have "low_prio_budget st' + int (budget_admissions tr_dispatch) = low_prio_budget st1"
    and "0 \<le> low_prio_budget st'"
    using b p by (simp_all add: budget_step_def)
  with b have paid: "promotions tr_pre + budget_admissions tr_dispatch \<le> 5" by simp
  have "low_prio_admissions tr_dispatch \<le> 5 + card (promoted_sockets st)"
    if e: "env_promotes_none e" and f: "finite (promoted_sockets st)"
  proof -
    from loop_pre_promoted [OF e f assms(2)]
    have f1: "finite (promoted_sockets st1)"
      and c1: "card (promoted_sockets st1) \<le> card (promoted_sockets st) + promotions tr_pre"
      by simp_all
    from dispatch_ready_polls_promoted [OF e assms(3)] f1
    have "delayed_admissions tr_dispatch \<le> card (promoted_sockets st1)"
      by (simp add: promoted_step_def promoted_sockets_def)
    with c1 paid show ?thesis
      by (simp add: low_prio_admissions_def)
  qed
  with paid show ?thesis by blast
qed

lemma storm_example_pre:
  "us_internal_loop_pre 0 low_prio_env storm_example
     = Some (fst (us_internal_handle_low_priority_sockets
                    (storm_example\<lparr>iteration_nr := 1, dns_ready_head := None\<rparr>)),
             [LOW_PRIO_PROMOTED 1, LOW_PRIO_PROMOTED 2, PRE_CB])"
proof -
  have "us_internal_handle_dns_results 0 low_prio_env (storm_example\<lparr>iteration_nr := iteration_nr storm_example + 1\<rparr>)
        = Some (False, storm_example\<lparr>iteration_nr := 1, dns_ready_head := None\<rparr>, [])"
    by (simp add: us_internal_handle_dns_results_def storm_example_def zero_loop_def)
  moreover have "snd (us_internal_handle_low_priority_sockets
      (storm_example\<lparr>iteration_nr := 1, dns_ready_head := None\<rparr>))
   = [LOW_PRIO_PROMOTED 1, LOW_PRIO_PROMOTED 2]"
    by (simp add: us_internal_handle_low_priority_sockets_def storm_example_def zero_loop_def
      zero_socket_def zero_context_def MAX_LOW_PRIO_SOCKETS_PER_LOOP_ITERATION_def
      low_prio_promote_def us_internal_socket_context_link_socket_def us_poll_change_def
      upd_socket_def upd_context_def upd_poll_def or_READABLE_def Let_def
      low_prio_loop.simps)
  ultimately show ?thesis
    by (auto simp: us_internal_loop_pre_def Let_def low_prio_env_def idle_env_def split: prod.splits)
qed

lemma dispatch_budget_admission:
  assumes "p_type (polls st s) = POLL_TYPE_SOCKET" and "sockets st s = zero_socket"
    and "0 < low_prio_budget st"
  shows "us_internal_dispatch_ready_poll low_prio_env (readable_poll s) st
         = (st\<lparr>low_prio_budget := low_prio_budget st - 1\<rparr>,
            [LOW_PRIO_ADMIT_BUDGET s, BSD_RECV s LIBUS_SOCKET_ERROR])"
  using assms
  by (simp add: us_internal_dispatch_ready_poll_def readable_poll_def dispatch_socket_def
      writable_phase_def readable_phase_def low_prio_admission_def eof_phase_def error_phase_def
      low_prio_env_def zero_socket_def)

lemma storm_promoted_pre:
  "us_internal_loop_pre 0 low_prio_env storm_example
     = Some (storm_promoted, [LOW_PRIO_PROMOTED 1, LOW_PRIO_PROMOTED 2, PRE_CB])"
  unfolding storm_promoted_def by (rule storm_example_pre)

lemma storm_promoted_fields:
  "low_prio_budget storm_promoted = 3"
  "low_prio_head storm_promoted = None"
  "dns_ready_head storm_promoted = None"
  "iteration_nr storm_promoted = 1"
  "low_prio_state (sockets storm_promoted 1) = 2"
  "low_prio_state (sockets storm_promoted 2) = 2"
  "\<And>p. p_type (polls storm_promoted p) = POLL_TYPE_SOCKET"
  "\<And>s. 2 < s \<Longrightarrow> sockets storm_promoted s = zero_socket"
  by (simp_all add: storm_promoted_def us_internal_handle_low_priority_sockets_def storm_example_def
      zero_loop_def zero_socket_def zero_context_def MAX_LOW_PRIO_SOCKETS_PER_LOOP_ITERATION_def
      low_prio_promote_def us_internal_socket_context_link_socket_def us_poll_change_def
      upd_socket_def upd_context_def upd_poll_def or_READABLE_def Let_def
      low_prio_loop.simps)

lemma dispatch_delayed_admission:
  assumes "p_type (polls st s) = POLL_TYPE_SOCKET" and "low_prio_state (sockets st s) = 2"
  shows "us_internal_dispatch_ready_poll low_prio_env (readable_poll s) st
         = (upd_socket s (\<lambda>x. x\<lparr>low_prio_state := 0\<rparr>) st,
            [LOW_PRIO_ADMIT_DELAYED s, BSD_RECV s LIBUS_SOCKET_ERROR])"
  using assms
  by (simp add: us_internal_dispatch_ready_poll_def readable_poll_def dispatch_socket_def
      writable_phase_def readable_phase_def low_prio_admission_def eof_phase_def error_phase_def
      low_prio_env_def)

lemma storm_promoted_dispatch:
  "\<exists>st'. dispatch_ready_polls low_prio_env [readable_poll 1, readable_poll 7]
            (storm_promoted\<lparr>num_ready_polls := 2\<rparr>)
     = (st', [LOW_PRIO_ADMIT_DELAYED 1, BSD_RECV 1 LIBUS_SOCKET_ERROR,
              LOW_PRIO_ADMIT_BUDGET 7, BSD_RECV 7 LIBUS_SOCKET_ERROR])"
proof -
  define a0 where "a0 = storm_promoted\<lparr>num_ready_polls := 2\<rparr>"
  define a1 where "a1 = upd_socket 1 (\<lambda>x. x\<lparr>low_prio_state := 0\<rparr>) a0"
  have f0: "low_prio_state (sockets a0 1) = 2" "\<And>p. p_type (polls a0 p) = POLL_TYPE_SOCKET"
    "sockets a0 7 = zero_socket" "low_prio_budget a0 = 3"
    using storm_promoted_fields by (simp_all add: a0_def)
  have f1: "p_type (polls a1 7) = POLL_TYPE_SOCKET" "sockets a1 7 = zero_socket"
    "0 < low_prio_budget a1"
    using f0 by (simp_all add: a1_def upd_socket_def)
  have d1: "us_internal_dispatch_ready_poll low_prio_env (readable_poll 1) a0
            = (a1, [LOW_PRIO_ADMIT_DELAYED 1, BSD_RECV 1 LIBUS_SOCKET_ERROR])"
    unfolding a1_def by (rule dispatch_delayed_admission) (rule f0)+
  have d2: "us_internal_dispatch_ready_poll low_prio_env (readable_poll 7) a1
            = (a1\<lparr>low_prio_budget := low_prio_budget a1 - 1\<rparr>,
               [LOW_PRIO_ADMIT_BUDGET 7, BSD_RECV 7 LIBUS_SOCKET_ERROR])"
    by (rule dispatch_budget_admission) (rule f1)+
  have "dispatch_ready_polls low_prio_env [readable_poll 1, readable_poll 7] a0
        = (a1\<lparr>low_prio_budget := low_prio_budget a1 - 1\<rparr>,
           [LOW_PRIO_ADMIT_DELAYED 1, BSD_RECV 1 LIBUS_SOCKET_ERROR,
            LOW_PRIO_ADMIT_BUDGET 7, BSD_RECV 7 LIBUS_SOCKET_ERROR])"
    by (simp only: dispatch_ready_polls.simps d1 d2 prod.case append.simps)
  then show ?thesis
    unfolding a0_def by blast
qed

lemma low_prio_admissions_simps:
  "low_prio_admissions [] = 0"
  "low_prio_admissions (LOW_PRIO_ADMIT_DELAYED s # tr) = Suc (low_prio_admissions tr)"
  "low_prio_admissions (LOW_PRIO_ADMIT_BUDGET s # tr) = Suc (low_prio_admissions tr)"
  "low_prio_admissions (BSD_RECV s n # tr) = low_prio_admissions tr"
  by (simp_all add: low_prio_admissions_def is_delayed_admission_def is_budget_admission_def)

text \<open>
  Two parked sockets are promoted at the pre-hook, which leaves a budget of 3. In the
  dispatch socket 1 is admitted as promoted and the fresh low-priority socket 7 out of the
  budget: 2 promotions and 1 paid admission, 2 sockets admitted, none in state 2 before.
\<close>

theorem low_prio_admissions_share_budget_witness:
  "\<exists>st1 st'. us_internal_loop_pre 0 low_prio_env storm_example
        = Some (st1, [LOW_PRIO_PROMOTED 1, LOW_PRIO_PROMOTED 2, PRE_CB])
    \<and> dispatch_ready_polls low_prio_env [readable_poll 1, readable_poll 7] (st1\<lparr>num_ready_polls := 2\<rparr>)
        = (st', [LOW_PRIO_ADMIT_DELAYED 1, BSD_RECV 1 LIBUS_SOCKET_ERROR,
                 LOW_PRIO_ADMIT_BUDGET 7, BSD_RECV 7 LIBUS_SOCKET_ERROR])
    \<and> promoted_sockets storm_example = {}
    \<and> promotions [LOW_PRIO_PROMOTED 1, LOW_PRIO_PROMOTED 2, PRE_CB]
        + budget_admissions [LOW_PRIO_ADMIT_DELAYED 1, BSD_RECV 1 LIBUS_SOCKET_ERROR,
                             LOW_PRIO_ADMIT_BUDGET 7, BSD_RECV 7 LIBUS_SOCKET_ERROR] = 3
    \<and> low_prio_admissions [LOW_PRIO_ADMIT_DELAYED 1, BSD_RECV 1 LIBUS_SOCKET_ERROR,
                            LOW_PRIO_ADMIT_BUDGET 7, BSD_RECV 7 LIBUS_SOCKET_ERROR] = 2"
proof -
  obtain st' where run: "dispatch_ready_polls low_prio_env [readable_poll 1, readable_poll 7]
            (storm_promoted\<lparr>num_ready_polls := 2\<rparr>)
     = (st', [LOW_PRIO_ADMIT_DELAYED 1, BSD_RECV 1 LIBUS_SOCKET_ERROR,
              LOW_PRIO_ADMIT_BUDGET 7, BSD_RECV 7 LIBUS_SOCKET_ERROR])"
    using storm_promoted_dispatch by blast
  have k: "env_keeps_budget low_prio_env"
    by (simp add: env_keeps_budget_def keeps_budget_def low_prio_env_def idle_env_def
        idle_callbacks_def upd_socket_def split: option.split)
  have n: "env_promotes_none low_prio_env"
    by (auto simp: env_promotes_none_def promotes_none_def keeps_promoted_def promoted_sockets_def
        low_prio_env_def idle_env_def idle_callbacks_def upd_socket_def split: option.splits if_splits)
  have f: "promoted_sockets storm_example = {}"
    by (simp add: promoted_sockets_def storm_example_def zero_loop_def zero_socket_def)
  from low_prio_admissions_share_budget [OF k storm_promoted_pre run] n f storm_promoted_pre run
  show ?thesis
    by (simp add: is_budget_admission_def low_prio_admissions_simps)
qed

lemma storm_second_pre:
  "us_internal_loop_pre 0 low_prio_env storm_promoted = Some (storm_second, [PRE_CB])"
  by (simp add: us_internal_loop_pre_def us_internal_handle_dns_results_def
      us_internal_handle_low_priority_sockets_def low_prio_loop_empty storm_promoted_fields
      storm_second_def MAX_LOW_PRIO_SOCKETS_PER_LOOP_ITERATION_def low_prio_env_def idle_env_def)

lemma dispatch_ready_polls_cons:
  "us_internal_dispatch_ready_poll e rp st = (st1, tr1) \<Longrightarrow>
   snd (dispatch_ready_polls e (rp # rps) st) = tr1 @ snd (dispatch_ready_polls e rps st1)"
  by (simp split: prod.splits)

lemma storm_second_dispatch:
  "snd (dispatch_ready_polls low_prio_env (map readable_poll [1, 2, 7, 8, 9, 10, 11])
          (storm_second\<lparr>num_ready_polls := 7\<rparr>))
   = [LOW_PRIO_ADMIT_DELAYED 1, BSD_RECV 1 LIBUS_SOCKET_ERROR,
      LOW_PRIO_ADMIT_DELAYED 2, BSD_RECV 2 LIBUS_SOCKET_ERROR,
      LOW_PRIO_ADMIT_BUDGET 7, BSD_RECV 7 LIBUS_SOCKET_ERROR,
      LOW_PRIO_ADMIT_BUDGET 8, BSD_RECV 8 LIBUS_SOCKET_ERROR,
      LOW_PRIO_ADMIT_BUDGET 9, BSD_RECV 9 LIBUS_SOCKET_ERROR,
      LOW_PRIO_ADMIT_BUDGET 10, BSD_RECV 10 LIBUS_SOCKET_ERROR,
      LOW_PRIO_ADMIT_BUDGET 11, BSD_RECV 11 LIBUS_SOCKET_ERROR]"
proof -
  define a0 where "a0 = storm_second\<lparr>num_ready_polls := 7\<rparr>"
  define a1 where "a1 = upd_socket 1 (\<lambda>x. x\<lparr>low_prio_state := 0\<rparr>) a0"
  define a2 where "a2 = upd_socket 2 (\<lambda>x. x\<lparr>low_prio_state := 0\<rparr>) a1"
  define a3 where "a3 = a2\<lparr>low_prio_budget := 4\<rparr>"
  define a4 where "a4 = a3\<lparr>low_prio_budget := 3\<rparr>"
  define a5 where "a5 = a4\<lparr>low_prio_budget := 2\<rparr>"
  define a6 where "a6 = a5\<lparr>low_prio_budget := 1\<rparr>"
  define a7 where "a7 = a6\<lparr>low_prio_budget := 0\<rparr>"
  have f0: "low_prio_budget a0 = 5" "low_prio_state (sockets a0 1) = 2"
    "low_prio_state (sockets a0 2) = 2" "\<And>p. p_type (polls a0 p) = POLL_TYPE_SOCKET"
    "\<And>s. 2 < s \<Longrightarrow> sockets a0 s = zero_socket"
    using storm_promoted_fields by (simp_all add: a0_def storm_second_def)
  have f1: "low_prio_budget a1 = 5" "low_prio_state (sockets a1 2) = 2"
    "\<And>p. p_type (polls a1 p) = POLL_TYPE_SOCKET" "\<And>s. 2 < s \<Longrightarrow> sockets a1 s = zero_socket"
    using f0 by (simp_all add: a1_def upd_socket_def)
  have f2: "low_prio_budget a2 = 5"
    "\<And>p. p_type (polls a2 p) = POLL_TYPE_SOCKET" "\<And>s. 2 < s \<Longrightarrow> sockets a2 s = zero_socket"
    using f1 by (simp_all add: a2_def upd_socket_def)
  have f3: "low_prio_budget a3 = 4" "low_prio_budget a4 = 3" "low_prio_budget a5 = 2"
    "low_prio_budget a6 = 1"
    "\<And>p. p_type (polls a3 p) = POLL_TYPE_SOCKET" "\<And>s. 2 < s \<Longrightarrow> sockets a3 s = zero_socket"
    "\<And>p. p_type (polls a4 p) = POLL_TYPE_SOCKET" "\<And>s. 2 < s \<Longrightarrow> sockets a4 s = zero_socket"
    "\<And>p. p_type (polls a5 p) = POLL_TYPE_SOCKET" "\<And>s. 2 < s \<Longrightarrow> sockets a5 s = zero_socket"
    "\<And>p. p_type (polls a6 p) = POLL_TYPE_SOCKET" "\<And>s. 2 < s \<Longrightarrow> sockets a6 s = zero_socket"
    using f2 by (simp_all add: a3_def a4_def a5_def a6_def)
  have d1: "us_internal_dispatch_ready_poll low_prio_env (readable_poll 1) a0
            = (a1, [LOW_PRIO_ADMIT_DELAYED 1, BSD_RECV 1 LIBUS_SOCKET_ERROR])"
    unfolding a1_def by (rule dispatch_delayed_admission) (rule f0)+
  have d2: "us_internal_dispatch_ready_poll low_prio_env (readable_poll 2) a1
            = (a2, [LOW_PRIO_ADMIT_DELAYED 2, BSD_RECV 2 LIBUS_SOCKET_ERROR])"
    unfolding a2_def by (rule dispatch_delayed_admission) (rule f1)+
  have d3: "us_internal_dispatch_ready_poll low_prio_env (readable_poll 7) a2
            = (a3, [LOW_PRIO_ADMIT_BUDGET 7, BSD_RECV 7 LIBUS_SOCKET_ERROR])"
  proof -
    have "us_internal_dispatch_ready_poll low_prio_env (readable_poll 7) a2
          = (a2\<lparr>low_prio_budget := low_prio_budget a2 - 1\<rparr>,
             [LOW_PRIO_ADMIT_BUDGET 7, BSD_RECV 7 LIBUS_SOCKET_ERROR])"
      by (rule dispatch_budget_admission) (simp_all add: f2)
    then show ?thesis by (simp add: a3_def f2)
  qed
  have d4: "us_internal_dispatch_ready_poll low_prio_env (readable_poll 8) a3
            = (a4, [LOW_PRIO_ADMIT_BUDGET 8, BSD_RECV 8 LIBUS_SOCKET_ERROR])"
  proof -
    have "us_internal_dispatch_ready_poll low_prio_env (readable_poll 8) a3
          = (a3\<lparr>low_prio_budget := low_prio_budget a3 - 1\<rparr>,
             [LOW_PRIO_ADMIT_BUDGET 8, BSD_RECV 8 LIBUS_SOCKET_ERROR])"
      by (rule dispatch_budget_admission) (simp_all add: f3)
    then show ?thesis by (simp add: a4_def f3)
  qed
  have d5: "us_internal_dispatch_ready_poll low_prio_env (readable_poll 9) a4
            = (a5, [LOW_PRIO_ADMIT_BUDGET 9, BSD_RECV 9 LIBUS_SOCKET_ERROR])"
  proof -
    have "us_internal_dispatch_ready_poll low_prio_env (readable_poll 9) a4
          = (a4\<lparr>low_prio_budget := low_prio_budget a4 - 1\<rparr>,
             [LOW_PRIO_ADMIT_BUDGET 9, BSD_RECV 9 LIBUS_SOCKET_ERROR])"
      by (rule dispatch_budget_admission) (simp_all add: f3)
    then show ?thesis by (simp add: a5_def f3)
  qed
  have d6: "us_internal_dispatch_ready_poll low_prio_env (readable_poll 10) a5
            = (a6, [LOW_PRIO_ADMIT_BUDGET 10, BSD_RECV 10 LIBUS_SOCKET_ERROR])"
  proof -
    have "us_internal_dispatch_ready_poll low_prio_env (readable_poll 10) a5
          = (a5\<lparr>low_prio_budget := low_prio_budget a5 - 1\<rparr>,
             [LOW_PRIO_ADMIT_BUDGET 10, BSD_RECV 10 LIBUS_SOCKET_ERROR])"
      by (rule dispatch_budget_admission) (simp_all add: f3)
    then show ?thesis by (simp add: a6_def f3)
  qed
  have d7: "us_internal_dispatch_ready_poll low_prio_env (readable_poll 11) a6
            = (a7, [LOW_PRIO_ADMIT_BUDGET 11, BSD_RECV 11 LIBUS_SOCKET_ERROR])"
  proof -
    have "us_internal_dispatch_ready_poll low_prio_env (readable_poll 11) a6
          = (a6\<lparr>low_prio_budget := low_prio_budget a6 - 1\<rparr>,
             [LOW_PRIO_ADMIT_BUDGET 11, BSD_RECV 11 LIBUS_SOCKET_ERROR])"
      by (rule dispatch_budget_admission) (simp_all add: f3)
    then show ?thesis by (simp add: a7_def f3)
  qed
  show ?thesis
    unfolding a0_def [symmetric] list.map
    by (simp only: dispatch_ready_polls_cons [OF d1] dispatch_ready_polls_cons [OF d2]
        dispatch_ready_polls_cons [OF d3] dispatch_ready_polls_cons [OF d4]
        dispatch_ready_polls_cons [OF d5] dispatch_ready_polls_cons [OF d6]
        dispatch_ready_polls_cons [OF d7] dispatch_ready_polls.simps(1) snd_conv append.simps)
qed

text \<open>
  Claim C10 as stated fails: the sockets promoted by one pre-hook keep state 2 until
  their polls are reported, and are then admitted on top of a full budget. The pre-hook
  promotes the sockets 1 and 2; the poller reports nothing; the next pre-hook resets the
  budget to 5; the poller then reports 1 and 2 and the fresh low-priority sockets 7 to 11,
  and all 7 are admitted to the receive loop in that one iteration.
\<close>

theorem low_prio_admissions_over_budget_counterexample:
  "us_internal_loop_pre 0 low_prio_env storm_example
     = Some (storm_promoted, [LOW_PRIO_PROMOTED 1, LOW_PRIO_PROMOTED 2, PRE_CB])
   \<and> dispatch_ready_polls low_prio_env [] storm_promoted = (storm_promoted, [])
   \<and> us_internal_loop_pre 0 low_prio_env storm_promoted = Some (storm_second, [PRE_CB])
   \<and> snd (dispatch_ready_polls low_prio_env (map readable_poll [1, 2, 7, 8, 9, 10, 11])
             (storm_second\<lparr>num_ready_polls := 7\<rparr>))
       = [LOW_PRIO_ADMIT_DELAYED 1, BSD_RECV 1 LIBUS_SOCKET_ERROR,
          LOW_PRIO_ADMIT_DELAYED 2, BSD_RECV 2 LIBUS_SOCKET_ERROR,
          LOW_PRIO_ADMIT_BUDGET 7, BSD_RECV 7 LIBUS_SOCKET_ERROR,
          LOW_PRIO_ADMIT_BUDGET 8, BSD_RECV 8 LIBUS_SOCKET_ERROR,
          LOW_PRIO_ADMIT_BUDGET 9, BSD_RECV 9 LIBUS_SOCKET_ERROR,
          LOW_PRIO_ADMIT_BUDGET 10, BSD_RECV 10 LIBUS_SOCKET_ERROR,
          LOW_PRIO_ADMIT_BUDGET 11, BSD_RECV 11 LIBUS_SOCKET_ERROR]
   \<and> low_prio_admissions
         (snd (dispatch_ready_polls low_prio_env (map readable_poll [1, 2, 7, 8, 9, 10, 11])
                 (storm_second\<lparr>num_ready_polls := 7\<rparr>))) = 7
   \<and> receives
         (snd (dispatch_ready_polls low_prio_env (map readable_poll [1, 2, 7, 8, 9, 10, 11])
                 (storm_second\<lparr>num_ready_polls := 7\<rparr>))) = 7"
  unfolding storm_second_dispatch
  by (simp add: storm_promoted_pre storm_second_pre low_prio_admissions_simps receives_def
      is_receive_def)

end
